theory Spec2Isabelle
  imports Complex_Main "HOL-Library.Sublist"
begin

section \<open>Python values and errors\<close>

text \<open>
  The embedding follows \<^verbatim>\<open>kws_watson.py\<close>. Every exception the script can raise is a
  constructor of \<open>error\<close>, and a function that may raise returns \<open>error + 'a\<close>
  with \<open>Inl\<close> for the exception.
  \<^item> \<open>KeyError k\<close>: a dictionary subscript \<^verbatim>\<open>d[k]\<close> with \<open>k\<close> missing.
  \<^item> \<open>IndexError\<close>: a list subscript out of range.
  \<^item> \<open>ValueError\<close>: the three-name unpacking of a shorter list.
  \<^item> \<open>ServiceError msg\<close>: whatever \<^verbatim>\<open>open\<close> or \<^verbatim>\<open>service.recognize\<close> raises.
\<close>

datatype error = KeyError string | IndexError | ValueError | ServiceError string

text \<open>
  A cell written to the output table is a string or a number. The numbers are the
  timestamps and confidences of the service response; the script only passes them on.
\<close>

datatype pyval = PStr string | PNum real

text \<open>\<^verbatim>\<open>d[k]\<close> on a dictionary held as an association list in insertion order.\<close>

definition getitem :: "(string \<times> 'v) list \<Rightarrow> string \<Rightarrow> error + 'v" where
  "getitem d k = (case map_of d k of None \<Rightarrow> Inl (KeyError k) | Some v \<Rightarrow> Inr v)"

text \<open>\<^verbatim>\<open>xs[i]\<close> on a list, for the non-negative indices the script uses.\<close>

definition index :: "'a list \<Rightarrow> nat \<Rightarrow> error + 'a" where
  "index xs i = (if i < length xs then Inr (xs ! i) else Inl IndexError)"

text \<open>\<^verbatim>\<open>list(d.values())\<close>.\<close>

definition values_list :: "(string \<times> 'v) list \<Rightarrow> 'v list" where
  "values_list d = map snd d"

text \<open>
  \<^verbatim>\<open>p in s\<close> on two strings: \<open>p\<close> occurs in \<open>s\<close> as a contiguous run of characters.
  The empty string occurs in every string.
\<close>

fun str_in :: "string \<Rightarrow> string \<Rightarrow> bool" where
  "str_in p [] = (p = [])"
| "str_in p (c # cs) = (prefix p (c # cs) \<or> str_in p cs)"

text \<open>\<^verbatim>\<open>s.split(sep)\<close> for a one-character separator: one more piece than separators.\<close>

fun split :: "char \<Rightarrow> string \<Rightarrow> string list" where
  "split sep [] = [[]]"
| "split sep (c # cs) =
     (if c = sep then [] # split sep cs
      else (case split sep cs of [] \<Rightarrow> [[c]] | w # ws \<Rightarrow> (c # w) # ws))"

text \<open>\<^verbatim>\<open>xs[-3:]\<close>: the last three elements, or all of a shorter list.\<close>

definition last3 :: "'a list \<Rightarrow> 'a list" where
  "last3 xs = drop (length xs - 3) xs"

text \<open>
  \<^verbatim>\<open>os.path.join(a, p1, p2, p3)\<close> on POSIX: a component that starts with the separator
  replaces what was joined so far, otherwise it is appended after one separator.
\<close>

definition join2 :: "string \<Rightarrow> string \<Rightarrow> string" where
  "join2 path b =
     (if prefix ''/'' b then b
      else if path = [] \<or> suffix ''/'' path then path @ b
      else path @ ''/'' @ b)"

definition join :: "string \<Rightarrow> string \<Rightarrow> string \<Rightarrow> string \<Rightarrow> string" where
  "join a p1 p2 p3 = join2 (join2 (join2 a p1) p2) p3"

section \<open>The metadata table and the keyword index\<close>

text \<open>
  A row is what \<^verbatim>\<open>csv.DictReader\<close> yields: a dictionary from column name to cell, in
  column order. Cells are strings; a row has one cell per column of its table.
  The keyword index is the dictionary \<^verbatim>\<open>keywords\<close>, in insertion order, from a stimulus
  id to the list \<^verbatim>\<open>[dominant, secondary]\<close>.
\<close>

type_synonym row = "(string \<times> string) list"

type_synonym keyword_index = "(string \<times> string list) list"

record table =
  fieldnames :: "string list"
  rows :: "row list"

text \<open>
  Lines 54 to 58: the scan \<^verbatim>\<open>for img in keywords\<close> for the first entry one of whose two
  words occurs in the current stimulus id. It yields that entry's list, or \<^verbatim>\<open>[]\<close>
  when the scan ends without a hit. The \<^verbatim>\<open>or\<close> is evaluated left to right.
\<close>

fun find_same :: "keyword_index \<Rightarrow> string \<Rightarrow> error + string list" where
  "find_same [] name = Inr []"
| "find_same ((img, kw) # rest) name =
     (case index kw 0 of
        Inl e \<Rightarrow> Inl e
      | Inr k0 \<Rightarrow>
          if str_in k0 name then Inr kw
          else (case index kw 1 of
                  Inl e \<Rightarrow> Inl e
                | Inr k1 \<Rightarrow> if str_in k1 name then Inr kw else find_same rest name))"

text \<open>Lines 50 to 60: the body of the loop over the rows, on one row.\<close>

definition get_keywords_row :: "keyword_index \<Rightarrow> row \<Rightarrow> error + keyword_index" where
  "get_keywords_row keywords r =
     (case getitem r ''img'' of
        Inl e \<Rightarrow> Inl e
      | Inr name \<Rightarrow>
          if name \<in> set (map fst keywords) then Inr keywords
          else (case getitem r ''secondary'' of
                  Inl e \<Rightarrow> Inl e
                | Inr sec \<Rightarrow>
                    if sec \<noteq> [] then
                      (case getitem r ''dominant'' of
                         Inl e \<Rightarrow> Inl e
                       | Inr dominant \<Rightarrow> Inr (keywords @ [(name, [dominant, sec])]))
                    else
                      (case find_same keywords name of
                         Inl e \<Rightarrow> Inl e
                       | Inr same \<Rightarrow>
                           if same \<noteq> [] then
                             (case index same 0 of
                                Inl e \<Rightarrow> Inl e
                              | Inr s0 \<Rightarrow>
                                  (case index same 1 of
                                     Inl e \<Rightarrow> Inl e
                                   | Inr s1 \<Rightarrow> Inr (keywords @ [(name, [s0, s1])])))
                           else Inr keywords)))"

text \<open>Lines 49 to 60: the loop, started on the index built so far.\<close>

fun get_keywords_loop :: "keyword_index \<Rightarrow> row list \<Rightarrow> error + keyword_index" where
  "get_keywords_loop keywords [] = Inr keywords"
| "get_keywords_loop keywords (r # rs) =
     (case get_keywords_row keywords r of
        Inl e \<Rightarrow> Inl e
      | Inr keywords' \<Rightarrow> get_keywords_loop keywords' rs)"

text \<open>Lines 40 to 63, on the rows of the table at \<^verbatim>\<open>index_csv_path\<close>.\<close>

definition get_keywords :: "row list \<Rightarrow> error + keyword_index" where
  "get_keywords rs = get_keywords_loop [] rs"

section \<open>The service response and the transcriber\<close>

text \<open>
  The response is shaped as the comment at lines 82 to 104 shows it: a list of result
  segments, each with an optional dictionary \<^verbatim>\<open>keywords_result\<close> from a keyword to
  its list of spots, and a list of alternatives.
\<close>

record spot =
  normalized_text :: string
  start_time :: real
  confidence :: real
  end_time :: real

record alternative =
  transcript :: string
  alt_confidence :: real

record segment =
  keywords_result :: "(string \<times> spot list) list option"
  alternatives :: "alternative list"
  final :: bool

type_synonym transcription = "(string \<times> pyval) list"

text \<open>A spot as the dictionary the service sends, in the order of the comment.\<close>

definition spot_dict :: "spot \<Rightarrow> transcription" where
  "spot_dict s =
     [(''normalized_text'', PStr (normalized_text s)),
      (''start_time'', PNum (start_time s)),
      (''confidence'', PNum (confidence s)),
      (''end_time'', PNum (end_time s))]"

text \<open>Line 109: the record returned when no keyword was spotted.\<close>

definition sentinel :: transcription where
  "sentinel =
     [(''normalized_text'', PStr ''''),
      (''start_time'', PStr ''''),
      (''confidence'', PStr ''''),
      (''end_time'', PStr '''')]"

text \<open>Lines 106 to 109, on the value of \<^verbatim>\<open>results\<close>.\<close>

fun first_spot :: "segment list \<Rightarrow> error + transcription" where
  "first_spot [] = Inr sentinel"
| "first_spot (seg # _) =
     (case keywords_result seg of
        None \<Rightarrow> Inr sentinel
      | Some [] \<Rightarrow> Inr sentinel
      | Some ((key, spots) # _) \<Rightarrow>
          (case spots of [] \<Rightarrow> Inl IndexError | s # _ \<Rightarrow> Inr (spot_dict s)))"

text \<open>
  The cloud service of lines 73 to 81, with the opening of the audio file: a function
  from the audio path and the keyword list to the \<^verbatim>\<open>results\<close> of the response, or to
  the exception raised.
\<close>

type_synonym service = "string \<Rightarrow> string list \<Rightarrow> error + segment list"

definition transcribe :: "service \<Rightarrow> string \<Rightarrow> string list \<Rightarrow> error + transcription" where
  "transcribe recognize audio_path keywords =
     (case recognize audio_path keywords of
        Inl e \<Rightarrow> Inl e
      | Inr results \<Rightarrow> first_spot results)"

section \<open>The driver\<close>

definition data_path :: string where
  "data_path = ''/home/sichao/Documents/wc/Data''"

definition kws_columns :: "string list" where
  "kws_columns = [''kws_word'', ''kws_start_t'', ''kws_conf'', ''kws_end_t'']"

text \<open>
  Lines 133 to 138 on one row: the output line, or the exception. The subscript
  \<^verbatim>\<open>keywords[row['img']]\<close> is evaluated before \<^verbatim>\<open>transcribe\<close> is called.
\<close>

definition process_row :: "service \<Rightarrow> keyword_index \<Rightarrow> row \<Rightarrow> error + pyval list" where
  "process_row recognize keywords r =
     (case getitem r ''audio_path'' of
        Inl e \<Rightarrow> Inl e
      | Inr p \<Rightarrow>
          (case last3 (split CHR ''/'' p) of
             [path1, path2, path3] \<Rightarrow>
               (case getitem r ''img'' of
                  Inl e \<Rightarrow> Inl e
                | Inr name \<Rightarrow>
                    (case getitem keywords name of
                       Inl e \<Rightarrow> Inl e
                     | Inr kw \<Rightarrow>
                         (case transcribe recognize (join data_path path1 path2 path3) kw of
                            Inl e \<Rightarrow> Inl e
                          | Inr t \<Rightarrow> Inr (map PStr (values_list r) @ values_list t))))
           | _ \<Rightarrow> Inl ValueError))"

text \<open>
  Lines 125 to 138: the loop over the rows. It returns the lines written so far and
  the exception that ended the run, if any.
\<close>

fun process_rows ::
  "service \<Rightarrow> keyword_index \<Rightarrow> row list \<Rightarrow> pyval list list \<Rightarrow> pyval list list \<times> error option"
where
  "process_rows recognize keywords [] out = (out, None)"
| "process_rows recognize keywords (r # rs) out =
     (case process_row recognize keywords r of
        Inl e \<Rightarrow> (out, Some e)
      | Inr line \<Rightarrow> process_rows recognize keywords rs (out @ [line]))"

text \<open>
  Lines 117 to 138: the index is built from the table, the header is written, then
  the same table is read again row by row.
\<close>

definition main :: "service \<Rightarrow> table \<Rightarrow> pyval list list \<times> error option" where
  "main recognize t =
     (case get_keywords (rows t) of
        Inl e \<Rightarrow> ([], Some e)
      | Inr keywords \<Rightarrow>
          process_rows recognize keywords (rows t) [map PStr (fieldnames t @ kws_columns)])"

section \<open>Notions used to state the properties\<close>

text \<open>
  The test of line 56 on an entry of the index that holds two words: the first or the
  second word occurs in the stimulus id.
\<close>

definition word_in :: "string list \<Rightarrow> string \<Rightarrow> bool" where
  "word_in kw name = (str_in (kw ! 0) name \<or> str_in (kw ! 1) name)"

text \<open>
  The shape of a stored value: a list of exactly two strings, the second one not empty.
\<close>

definition entry_ok :: "string list \<Rightarrow> bool" where
  "entry_ok kw = (length kw = 2 \<and> kw ! 1 \<noteq> [])"

definition index_ok :: "keyword_index \<Rightarrow> bool" where
  "index_ok keywords = list_all (\<lambda>(img, kw). entry_ok kw) keywords"

text \<open>A row of a table whose header is \<^verbatim>\<open>img,audio_path,dominant,secondary\<close>.\<close>

definition mk_row :: "string \<Rightarrow> string \<Rightarrow> string \<Rightarrow> string \<Rightarrow> row" where
  "mk_row name audio dominant secondary =
     [(''img'', name), (''audio_path'', audio),
      (''dominant'', dominant), (''secondary'', secondary)]"

text \<open>A service that answers every request with the same \<^verbatim>\<open>results\<close>.\<close>

definition respond :: "segment list \<Rightarrow> service" where
  "respond results audio_path keywords = Inr results"

text \<open>
  The response shown in the comment at lines 83 to 104: one segment, one spot of the
  keyword \<^verbatim>\<open>wolf\<close>, one alternative.
\<close>

definition wolf_segment :: segment where
  "wolf_segment =
     \<lparr>keywords_result =
        Some [(''wolf'', [\<lparr>normalized_text = ''wolf'', start_time = 2,
                            confidence = 3 / 100, end_time = 211 / 100\<rparr>])],
      alternatives = [\<lparr>transcript = ''well '', alt_confidence = 57 / 100\<rparr>],
      final = True\<rparr>"


text \<open>
  A row with its own keywords: the three columns are present and the two keywords are non-empty.
  The triple is the row's id with its own pair.
\<close>

definition explicit_row :: "row \<Rightarrow> string \<times> string \<times> string \<Rightarrow> bool" where
  "explicit_row r t = (case t of (name, d, s) \<Rightarrow>
     getitem r ''img'' = Inr name \<and> getitem r ''dominant'' = Inr d \<and> d \<noteq> []
     \<and> getitem r ''secondary'' = Inr s \<and> s \<noteq> [])"

definition own_entry :: "string \<times> string \<times> string \<Rightarrow> string \<times> string list" where
  "own_entry t = (case t of (name, d, s) \<Rightarrow> (name, [d, s]))"
section \<open>Auxiliary facts\<close>

subsection \<open>Strings, lists and dictionaries\<close>

text \<open>\<open>str_in\<close> is the substring relation.\<close>

lemma str_in_iff: "str_in p s \<longleftrightarrow> (\<exists>a b. s = a @ p @ b)"
proof (induction s)
  case Nil
  then show ?case by auto
next
  case (Cons c cs)
  show ?case
  proof
    assume "str_in p (c # cs)"
    then consider "prefix p (c # cs)" | "str_in p cs" by auto
    then show "\<exists>a b. c # cs = a @ p @ b"
    proof cases
      case 1
      then obtain b where "c # cs = p @ b" by (auto simp: prefix_def)
      then have "c # cs = [] @ p @ b" by simp
      then show ?thesis by blast
    next
      case 2
      with Cons obtain a b where "cs = a @ p @ b" by blast
      then have "c # cs = (c # a) @ p @ b" by simp
      then show ?thesis by blast
    qed
  next
    assume "\<exists>a b. c # cs = a @ p @ b"
    then obtain a b where ab: "c # cs = a @ p @ b" by blast
    show "str_in p (c # cs)"
    proof (cases a)
      case Nil
      with ab have "prefix p (c # cs)" by (auto simp: prefix_def)
      then show ?thesis by simp
    next
      case (Cons x a')
      with ab have "cs = a' @ p @ b" by simp
      with Cons.IH show ?thesis by auto
    qed
  qed
qed

lemma getitem_present:
  "k \<in> fst ` set d \<Longrightarrow> \<exists>v. getitem d k = Inr v"
proof -
  assume "k \<in> fst ` set d"
  then have "map_of d k \<noteq> None" by (simp add: map_of_eq_None_iff)
  then obtain v where "map_of d k = Some v" by blast
  then have "getitem d k = Inr v" by (simp add: getitem_def)
  then show ?thesis ..
qed

lemma getitem_absent:
  "k \<notin> fst ` set d \<Longrightarrow> getitem d k = Inl (KeyError k)"
proof -
  assume "k \<notin> fst ` set d"
  then have "map_of d k = None" by (simp add: map_of_eq_None_iff)
  then show ?thesis by (simp add: getitem_def)
qed

lemma getitem_Inr_iff:
  "getitem d k = Inr v \<longleftrightarrow> map_of d k = Some v"
  by (simp add: getitem_def split: option.splits)

lemma mk_row_img [simp]: "getitem (mk_row n a d s) ''img'' = Inr n"
  by (simp add: getitem_def mk_row_def)

lemma mk_row_audio [simp]: "getitem (mk_row n a d s) ''audio_path'' = Inr a"
  by (simp add: getitem_def mk_row_def)

lemma mk_row_dominant [simp]: "getitem (mk_row n a d s) ''dominant'' = Inr d"
  by (simp add: getitem_def mk_row_def)

lemma mk_row_secondary [simp]: "getitem (mk_row n a d s) ''secondary'' = Inr s"
  by (simp add: getitem_def mk_row_def)

subsection \<open>The scan and the loop body\<close>

lemma get_keywords_loop_append:
  "get_keywords_loop kws (xs @ ys) =
     (case get_keywords_loop kws xs of
        Inl e \<Rightarrow> Inl e
      | Inr kws' \<Rightarrow> get_keywords_loop kws' ys)"
  by (induction xs arbitrary: kws) (auto split: sum.splits)

lemma index_ok_append [simp]:
  "index_ok (xs @ ys) \<longleftrightarrow> index_ok xs \<and> index_ok ys"
  by (simp add: index_ok_def)

lemma index_ok_Cons [simp]:
  "index_ok ((img, kw) # xs) \<longleftrightarrow> entry_ok kw \<and> index_ok xs"
  by (simp add: index_ok_def)

lemma index_ok_Nil [simp]: "index_ok []"
  by (simp add: index_ok_def)

lemma entry_ok_pair: "entry_ok kw \<longleftrightarrow> (\<exists>d s. kw = [d, s] \<and> s \<noteq> [])"
proof
  assume "entry_ok kw"
  then have l: "length kw = 2" and s: "kw ! 1 \<noteq> []" by (simp_all add: entry_ok_def)
  from l obtain d s where "kw = [d, s]"
    by (cases kw; cases "tl kw") auto
  with s show "\<exists>d s. kw = [d, s] \<and> s \<noteq> []" by auto
next
  assume "\<exists>d s. kw = [d, s] \<and> s \<noteq> []"
  then show "entry_ok kw" by (auto simp: entry_ok_def)
qed

lemma index_pair [simp]:
  "index [d, s] 0 = Inr d" "index [d, s] (Suc 0) = Inr s" "index [d, s] 1 = Inr s"
  by (simp_all add: index_def)

lemma find_same_no_hit:
  "index_ok kws \<Longrightarrow> \<forall>x \<in> set kws. \<not> word_in (snd x) name \<Longrightarrow>
   find_same kws name = Inr []"
proof (induction kws)
  case Nil
  then show ?case by simp
next
  case (Cons a kws)
  obtain i k where a: "a = (i, k)" by (cases a)
  with Cons.prems have "entry_ok k" "\<not> word_in k name" by auto
  then obtain d s where k: "k = [d, s]" and "\<not> str_in d name" "\<not> str_in s name"
    by (auto simp: entry_ok_pair word_in_def)
  with a Cons show ?case by auto
qed

lemma find_same_first_hit:
  "index_ok (before @ (img, kw) # rest) \<Longrightarrow>
   \<forall>x \<in> set before. \<not> word_in (snd x) name \<Longrightarrow> word_in kw name \<Longrightarrow>
   find_same (before @ (img, kw) # rest) name = Inr kw"
proof (induction before)
  case Nil
  then obtain d s where "kw = [d, s]" by (auto simp: entry_ok_pair)
  with Nil show ?case by (auto simp: word_in_def)
next
  case (Cons a before)
  obtain i k where a: "a = (i, k)" by (cases a)
  with Cons.prems have "entry_ok k" "\<not> word_in k name" by auto
  then obtain d s where k: "k = [d, s]" and "\<not> str_in d name" "\<not> str_in s name"
    by (auto simp: entry_ok_pair word_in_def)
  with a Cons show ?case by auto
qed

lemma find_same_cases:
  assumes "index_ok kws"
  shows "(find_same kws name = Inr [] \<and> (\<forall>x \<in> set kws. \<not> word_in (snd x) name))
       \<or> (\<exists>before img kw rest. kws = before @ (img, kw) # rest
            \<and> (\<forall>x \<in> set before. \<not> word_in (snd x) name) \<and> word_in kw name
            \<and> find_same kws name = Inr kw)"
proof (cases "\<forall>x \<in> set kws. \<not> word_in (snd x) name")
  case True
  with assms have "find_same kws name = Inr []" by (rule find_same_no_hit)
  with True show ?thesis by blast
next
  case False
  then have "\<exists>x \<in> set kws. word_in (snd x) name" by blast
  from split_list_first_prop [OF this] obtain before x rest where
    sp: "kws = before @ x # rest" and hit: "word_in (snd x) name"
    and none: "\<forall>y \<in> set before. \<not> word_in (snd y) name"
    by blast
  obtain img kw where x: "x = (img, kw)" by (cases x)
  from assms sp x have ok: "index_ok (before @ (img, kw) # rest)" by simp
  from hit x have hit': "word_in kw name" by simp
  have "find_same (before @ (img, kw) # rest) name = Inr kw"
    using ok none hit' by (rule find_same_first_hit)
  with sp x have "find_same kws name = Inr kw" by simp
  with sp x hit' none show ?thesis by blast
qed

lemma row_skip:
  "getitem r ''img'' = Inr name \<Longrightarrow> name \<in> set (map fst kws) \<Longrightarrow>
   get_keywords_row kws r = Inr kws"
  by (simp add: get_keywords_row_def)

lemma row_explicit:
  "getitem r ''img'' = Inr name \<Longrightarrow> name \<notin> set (map fst kws) \<Longrightarrow>
   getitem r ''secondary'' = Inr s \<Longrightarrow> s \<noteq> [] \<Longrightarrow> getitem r ''dominant'' = Inr d \<Longrightarrow>
   get_keywords_row kws r = Inr (kws @ [(name, [d, s])])"
  by (simp add: get_keywords_row_def)

lemma row_implicit:
  "getitem r ''img'' = Inr name \<Longrightarrow> name \<notin> set (map fst kws) \<Longrightarrow>
   getitem r ''secondary'' = Inr [] \<Longrightarrow>
   get_keywords_row kws r =
     (case find_same kws name of
        Inl e \<Rightarrow> Inl e
      | Inr same \<Rightarrow>
          if same \<noteq> [] then
            (case index same 0 of
               Inl e \<Rightarrow> Inl e
             | Inr s0 \<Rightarrow>
                 (case index same 1 of
                    Inl e \<Rightarrow> Inl e
                  | Inr s1 \<Rightarrow> Inr (kws @ [(name, [s0, s1])])))
          else Inr kws)"
  by (simp add: get_keywords_row_def)

lemma row_inherit:
  assumes "getitem r ''img'' = Inr name" "name \<notin> set (map fst kws)"
    and "getitem r ''secondary'' = Inr []"
    and ok: "index_ok kws" and sp: "kws = before @ (img, kw) # rest"
    and none: "\<forall>x \<in> set before. \<not> word_in (snd x) name" and hit: "word_in kw name"
  shows "get_keywords_row kws r = Inr (kws @ [(name, kw)])"
proof -
  from ok sp have ok': "index_ok (before @ (img, kw) # rest)" by simp
  have "find_same (before @ (img, kw) # rest) name = Inr kw"
    using ok' none hit by (rule find_same_first_hit)
  with sp have f: "find_same kws name = Inr kw" by simp
  from ok' obtain d s where kw: "kw = [d, s]" by (auto simp: entry_ok_pair)
  show ?thesis
    unfolding row_implicit [OF assms(1-3)] f kw by simp
qed

lemma row_unresolved:
  assumes "getitem r ''img'' = Inr name" "name \<notin> set (map fst kws)"
    and "getitem r ''secondary'' = Inr []"
    and ok: "index_ok kws" and none: "\<forall>x \<in> set kws. \<not> word_in (snd x) name"
  shows "get_keywords_row kws r = Inr kws"
proof -
  have f: "find_same kws name = Inr []" using ok none by (rule find_same_no_hit)
  show ?thesis unfolding row_implicit [OF assms(1-3)] f by simp
qed

text \<open>What one row does to a well-shaped index, given that its three columns exist.\<close>

lemma row_outcome:
  assumes img: "getitem r ''img'' = Inr name"
    and sec: "getitem r ''secondary'' = Inr s"
    and dom: "getitem r ''dominant'' = Inr d"
    and ok: "index_ok kws"
  shows "get_keywords_row kws r = Inr kws
       \<or> (name \<notin> set (map fst kws) \<and>
           (\<exists>kw. entry_ok kw \<and> get_keywords_row kws r = Inr (kws @ [(name, kw)])))"
proof (cases "name \<in> set (map fst kws)")
  case True
  with img show ?thesis by (simp add: row_skip)
next
  case False
  show ?thesis
  proof (cases "s = []")
    case nonempty: False
    have "get_keywords_row kws r = Inr (kws @ [(name, [d, s])])"
      using img False sec nonempty dom by (rule row_explicit)
    moreover from nonempty have "entry_ok [d, s]" by (simp add: entry_ok_def)
    ultimately show ?thesis using False by blast
  next
    case True
    with sec have sec': "getitem r ''secondary'' = Inr []" by simp
    from find_same_cases [OF ok, of name] show ?thesis
    proof
      assume "find_same kws name = Inr [] \<and> (\<forall>x \<in> set kws. \<not> word_in (snd x) name)"
      then have "\<forall>x \<in> set kws. \<not> word_in (snd x) name" by blast
      with img False sec' ok have "get_keywords_row kws r = Inr kws"
        by (rule row_unresolved)
      then show ?thesis by blast
    next
      assume "\<exists>before img kw rest. kws = before @ (img, kw) # rest
            \<and> (\<forall>x \<in> set before. \<not> word_in (snd x) name) \<and> word_in kw name
            \<and> find_same kws name = Inr kw"
      then obtain before i kw rest where
        sp: "kws = before @ (i, kw) # rest"
        and none: "\<forall>x \<in> set before. \<not> word_in (snd x) name"
        and hit: "word_in kw name"
        by blast
      have "get_keywords_row kws r = Inr (kws @ [(name, kw)])"
        using img False sec' ok sp none hit by (rule row_inherit)
      moreover from ok sp have "entry_ok kw" by simp
      ultimately show ?thesis using False by blast
    qed
  qed
qed

text \<open>The same without the assumption on the columns, for a row that raises nothing.\<close>

lemma row_result:
  assumes ok: "index_ok kws" and res: "get_keywords_row kws r = Inr kws'"
  shows "kws' = kws
       \<or> (\<exists>name kw. getitem r ''img'' = Inr name \<and> name \<notin> set (map fst kws)
             \<and> entry_ok kw \<and> kws' = kws @ [(name, kw)])"
proof -
  from res obtain name where img: "getitem r ''img'' = Inr name"
    by (cases "getitem r ''img''") (simp_all add: get_keywords_row_def)
  show ?thesis
  proof (cases "name \<in> set (map fst kws)")
    case True
    with img res show ?thesis by (simp add: row_skip)
  next
    case False
    from res img False obtain s where sec: "getitem r ''secondary'' = Inr s"
      by (cases "getitem r ''secondary''") (simp_all add: get_keywords_row_def)
    show ?thesis
    proof (cases "s = []")
      case nonempty: False
      from res img False sec nonempty obtain d where dom: "getitem r ''dominant'' = Inr d"
        by (cases "getitem r ''dominant''") (simp_all add: get_keywords_row_def)
      have "get_keywords_row kws r = Inr (kws @ [(name, [d, s])])"
        using img False sec nonempty dom by (rule row_explicit)
      with res have "kws' = kws @ [(name, [d, s])]" by simp
      moreover from nonempty have "entry_ok [d, s]" by (simp add: entry_ok_def)
      ultimately show ?thesis using img False by blast
    next
      case True
      with sec have sec': "getitem r ''secondary'' = Inr []" by simp
      from find_same_cases [OF ok, of name] show ?thesis
      proof
        assume "find_same kws name = Inr [] \<and> (\<forall>x \<in> set kws. \<not> word_in (snd x) name)"
        then have "\<forall>x \<in> set kws. \<not> word_in (snd x) name" by blast
        with img False sec' ok have "get_keywords_row kws r = Inr kws"
          by (rule row_unresolved)
        with res show ?thesis by simp
      next
        assume "\<exists>before img kw rest. kws = before @ (img, kw) # rest
              \<and> (\<forall>x \<in> set before. \<not> word_in (snd x) name) \<and> word_in kw name
              \<and> find_same kws name = Inr kw"
        then obtain before i kw rest where
          sp: "kws = before @ (i, kw) # rest"
          and none: "\<forall>x \<in> set before. \<not> word_in (snd x) name"
          and hit: "word_in kw name"
          by blast
        have "get_keywords_row kws r = Inr (kws @ [(name, kw)])"
          using img False sec' ok sp none hit by (rule row_inherit)
        with res have "kws' = kws @ [(name, kw)]" by simp
        moreover from ok sp have "entry_ok kw" by simp
        ultimately show ?thesis using img False by blast
      qed
    qed
  qed
qed

lemma row_index_ok:
  "index_ok kws \<Longrightarrow> get_keywords_row kws r = Inr kws' \<Longrightarrow> index_ok kws'"
  using row_result [of kws r kws'] by auto

lemma row_extends:
  "index_ok kws \<Longrightarrow> get_keywords_row kws r = Inr kws' \<Longrightarrow> \<exists>more. kws' = kws @ more"
  using row_result [of kws r kws'] by auto

lemma row_distinct:
  "index_ok kws \<Longrightarrow> get_keywords_row kws r = Inr kws' \<Longrightarrow>
   distinct (map fst kws) \<Longrightarrow> distinct (map fst kws')"
  using row_result [of kws r kws'] by auto

lemma row_keys:
  "index_ok kws \<Longrightarrow> get_keywords_row kws r = Inr kws' \<Longrightarrow> getitem r ''img'' = Inr name \<Longrightarrow>
   set (map fst kws') \<subseteq> insert name (set (map fst kws))"
  using row_result [of kws r kws'] by auto

subsection \<open>The loop\<close>

lemma loop_index_ok:
  "index_ok kws \<Longrightarrow> get_keywords_loop kws rs = Inr idx \<Longrightarrow> index_ok idx"
proof (induction rs arbitrary: kws)
  case Nil
  then show ?case by simp
next
  case (Cons r rs)
  from Cons.prems(2) obtain kws' where
    r: "get_keywords_row kws r = Inr kws'" and rs: "get_keywords_loop kws' rs = Inr idx"
    by (cases "get_keywords_row kws r") simp_all
  from Cons.prems(1) r have "index_ok kws'" by (rule row_index_ok)
  then show ?case using rs by (rule Cons.IH)
qed

lemma loop_extends:
  "index_ok kws \<Longrightarrow> get_keywords_loop kws rs = Inr idx \<Longrightarrow> \<exists>more. idx = kws @ more"
proof (induction rs arbitrary: kws)
  case Nil
  then show ?case by simp
next
  case (Cons r rs)
  from Cons.prems(2) obtain kws' where
    r: "get_keywords_row kws r = Inr kws'" and rs: "get_keywords_loop kws' rs = Inr idx"
    by (cases "get_keywords_row kws r") simp_all
  from Cons.prems(1) r have ok: "index_ok kws'" by (rule row_index_ok)
  from Cons.prems(1) r obtain m1 where "kws' = kws @ m1" using row_extends by blast
  moreover from Cons.IH [OF ok rs] obtain m2 where "idx = kws' @ m2" by blast
  ultimately show ?case by simp
qed

lemma loop_distinct:
  "index_ok kws \<Longrightarrow> get_keywords_loop kws rs = Inr idx \<Longrightarrow>
   distinct (map fst kws) \<Longrightarrow> distinct (map fst idx)"
proof (induction rs arbitrary: kws)
  case Nil
  then show ?case by simp
next
  case (Cons r rs)
  from Cons.prems(2) obtain kws' where
    r: "get_keywords_row kws r = Inr kws'" and rs: "get_keywords_loop kws' rs = Inr idx"
    by (cases "get_keywords_row kws r") simp_all
  from Cons.prems(1) r have ok: "index_ok kws'" by (rule row_index_ok)
  from Cons.prems(1) r Cons.prems(3) have "distinct (map fst kws')" by (rule row_distinct)
  with ok rs show ?case by (rule Cons.IH)
qed

text \<open>A key of the finished index was there at the start or is the id of a row.\<close>

lemma loop_keys:
  "index_ok kws \<Longrightarrow> get_keywords_loop kws rs = Inr idx \<Longrightarrow> k \<in> set (map fst idx) \<Longrightarrow>
   k \<in> set (map fst kws) \<or> (\<exists>r \<in> set rs. getitem r ''img'' = Inr k)"
proof (induction rs arbitrary: kws)
  case Nil
  then show ?case by simp
next
  case (Cons r rs)
  from Cons.prems(2) obtain kws' where
    r: "get_keywords_row kws r = Inr kws'" and rs: "get_keywords_loop kws' rs = Inr idx"
    by (cases "get_keywords_row kws r") simp_all
  from Cons.prems(1) r have ok: "index_ok kws'" by (rule row_index_ok)
  from Cons.IH [OF ok rs Cons.prems(3)]
  have "k \<in> set (map fst kws') \<or> (\<exists>r \<in> set rs. getitem r ''img'' = Inr k)" .
  moreover have "k \<in> set (map fst kws') \<Longrightarrow>
      k \<in> set (map fst kws) \<or> getitem r ''img'' = Inr k"
    using row_result [OF Cons.prems(1) r] by auto
  ultimately show ?case by auto
qed

text \<open>A table all of whose rows have the three columns raises nothing.\<close>

lemma loop_total:
  "index_ok kws \<Longrightarrow>
   \<forall>r \<in> set rs. {''img'', ''dominant'', ''secondary''} \<subseteq> fst ` set r \<Longrightarrow>
   \<exists>idx. get_keywords_loop kws rs = Inr idx"
proof (induction rs arbitrary: kws)
  case Nil
  then show ?case by simp
next
  case (Cons r rs)
  from Cons.prems(2) have c1: "''img'' \<in> fst ` set r" and c2: "''secondary'' \<in> fst ` set r"
    and c3: "''dominant'' \<in> fst ` set r" by simp_all
  from getitem_present [OF c1] obtain name where g1: "getitem r ''img'' = Inr name" ..
  from getitem_present [OF c2] obtain s where g2: "getitem r ''secondary'' = Inr s" ..
  from getitem_present [OF c3] obtain d where g3: "getitem r ''dominant'' = Inr d" ..
  from row_outcome [OF g1 g2 g3 Cons.prems(1)] obtain kws' where
    r: "get_keywords_row kws r = Inr kws'" by blast
  from Cons.prems(1) r have ok: "index_ok kws'" by (rule row_index_ok)
  from Cons.prems(2) have "\<forall>r \<in> set rs. {''img'', ''dominant'', ''secondary''} \<subseteq> fst ` set r"
    by simp
  from Cons.IH [OF ok this] r show ?case by simp
qed

lemma loop_prefix:
  "get_keywords_loop kws (xs @ ys) = Inr idx \<Longrightarrow> \<exists>mid. get_keywords_loop kws xs = Inr mid
     \<and> get_keywords_loop mid ys = Inr idx"
  by (cases "get_keywords_loop kws xs") (simp_all add: get_keywords_loop_append)

lemma index_ok_iff:
  "index_ok kws \<longleftrightarrow> (\<forall>x \<in> set kws. length (snd x) = 2 \<and> snd x ! 1 \<noteq> [])"
  by (auto simp: index_ok_def entry_ok_def list_all_iff)

lemma get_keywords_index_ok: "get_keywords rs = Inr idx \<Longrightarrow> index_ok idx"
  unfolding get_keywords_def using loop_index_ok [of "[]" rs idx] by simp

text \<open>An entry, once stored, is never replaced.\<close>

lemma loop_keeps:
  assumes "index_ok kws" "get_keywords_loop kws rs = Inr idx" "map_of kws k = Some v"
  shows "map_of idx k = Some v"
proof -
  from loop_extends [OF assms(1,2)] obtain more where "idx = kws @ more" ..
  with assms(3) show ?thesis by (simp add: map_add_Some_iff)
qed

lemma get_keywords_snoc:
  "get_keywords pre = Inr kws \<Longrightarrow> get_keywords (pre @ [r]) = get_keywords_row kws r"
  by (cases "get_keywords_row kws r") (simp_all add: get_keywords_def get_keywords_loop_append)

lemma get_keywords_continue:
  "get_keywords (pre @ r # post) =
     (case get_keywords (pre @ [r]) of
        Inl e \<Rightarrow> Inl e
      | Inr kws' \<Rightarrow> get_keywords_loop kws' post)"
proof -
  have "pre @ r # post = (pre @ [r]) @ post" by simp
  then show ?thesis
    unfolding get_keywords_def by (simp only: get_keywords_loop_append)
qed

lemma get_keywords_Nil [simp]: "get_keywords [] = Inr []"
  by (simp add: get_keywords_def)

lemma get_keywords_single_explicit:
  "s \<noteq> [] \<Longrightarrow> get_keywords [mk_row n a d s] = Inr [(n, [d, s])]"
  using get_keywords_snoc [of "[]" "[]" "mk_row n a d s"]
    row_explicit [of "mk_row n a d s" n "[]" s d]
  by simp

subsection \<open>One row of the driver\<close>

lemma last3_three: "3 \<le> length xs \<Longrightarrow> \<exists>a b c. last3 xs = [a, b, c]"
proof -
  assume "3 \<le> length xs"
  then have "length (last3 xs) = 3" by (simp add: last3_def)
  then show ?thesis
    by (metis (no_types) length_0_conv length_Suc_conv numeral_3_eq_3)
qed

lemma short_list: "length (xs :: 'a list) < 3 \<Longrightarrow> xs = [] \<or> (\<exists>a. xs = [a]) \<or> (\<exists>a b. xs = [a, b])"
proof (cases xs)
  case Nil
  then show ?thesis by simp
next
  case (Cons a ys)
  assume "length xs < 3"
  with Cons have "length ys < 2" by simp
  then have "ys = [] \<or> (\<exists>b. ys = [b])" by (cases ys) auto
  with Cons show ?thesis by auto
qed

lemma last3_short: "length xs < 3 \<Longrightarrow> last3 xs = xs"
  by (simp add: last3_def)

lemma process_row_bad_path:
  assumes "getitem r ''audio_path'' = Inr p" "length (split CHR ''/'' p) < 3"
  shows "process_row recognize kws r = Inl ValueError"
proof -
  from assms(2) have l: "last3 (split CHR ''/'' p) = split CHR ''/'' p" by (rule last3_short)
  from short_list [OF assms(2)] show ?thesis
    by (auto simp: process_row_def assms(1) l)
qed

lemma process_row_good_path:
  assumes "getitem r ''audio_path'' = Inr p" "last3 (split CHR ''/'' p) = [a, b, c]"
  shows "process_row recognize kws r =
     (case getitem r ''img'' of
        Inl e \<Rightarrow> Inl e
      | Inr name \<Rightarrow>
          (case getitem kws name of
             Inl e \<Rightarrow> Inl e
           | Inr kw \<Rightarrow>
               (case transcribe recognize (join data_path a b c) kw of
                  Inl e \<Rightarrow> Inl e
                | Inr t \<Rightarrow> Inr (map PStr (values_list r) @ values_list t))))"
  by (simp add: process_row_def assms)

lemma process_row_missing_key:
  assumes "getitem r ''audio_path'' = Inr p" "3 \<le> length (split CHR ''/'' p)"
    and "getitem r ''img'' = Inr name" "name \<notin> fst ` set kws"
  shows "process_row recognize kws r = Inl (KeyError name)"
proof -
  from last3_three [OF assms(2)] obtain a b c where
    l: "last3 (split CHR ''/'' p) = [a, b, c]" by blast
  from assms(4) have "getitem kws name = Inl (KeyError name)" by (rule getitem_absent)
  then show ?thesis
    by (simp add: process_row_good_path [OF assms(1) l] assms(3))
qed


subsection \<open>Tables of explicit rows\<close>

lemma map_of_snoc_known:
  "k \<in> fst ` set kws \<Longrightarrow> map_of (kws @ (k, v) # rest) = map_of (kws @ rest)"
proof
  fix x
  assume k: "k \<in> fst ` set kws"
  show "map_of (kws @ (k, v) # rest) x = map_of (kws @ rest) x"
  proof (cases "x = k")
    case True
    from k obtain w where "map_of kws k = Some w"
      by (metis map_of_eq_None_iff not_None_eq)
    with True show ?thesis by (simp add: map_add_Some_iff)
  next
    case False
    then show ?thesis by (simp add: map_add_def split: option.splits)
  qed
qed

lemma own_entry_fst [simp]: "fst (own_entry t) = fst t"
  by (cases t) (simp add: own_entry_def)

lemma loop_explicit_rows:
  assumes "list_all2 explicit_row rs ts"
  shows "\<exists>idx. get_keywords_loop kws rs = Inr idx
     \<and> map_of idx = map_of (kws @ map own_entry ts)
     \<and> (distinct (map fst kws @ map fst ts) \<longrightarrow> idx = kws @ map own_entry ts)"
  using assms
proof (induction rs ts arbitrary: kws rule: list_all2_induct)
  case Nil
  then show ?case by simp
next
  case (Cons r rs t ts)
  obtain name d s where t: "t = (name, d, s)" by (cases t)
  with Cons.hyps(1) have img: "getitem r ''img'' = Inr name"
    and dom: "getitem r ''dominant'' = Inr d"
    and sec: "getitem r ''secondary'' = Inr s" and ne: "s \<noteq> []"
    by (simp_all add: explicit_row_def)
  from t have e: "own_entry t = (name, [d, s])" by (simp add: own_entry_def)
  show ?case
  proof (cases "name \<in> set (map fst kws)")
    case True
    with img have step: "get_keywords_row kws r = Inr kws" by (rule row_skip)
    from Cons.IH [of kws] obtain idx where
      l: "get_keywords_loop kws rs = Inr idx"
      and m: "map_of idx = map_of (kws @ map own_entry ts)"
      by blast
    from True have "name \<in> fst ` set kws" by simp
    from map_of_snoc_known [OF this] m e
    have mm: "map_of idx = map_of (kws @ map own_entry (t # ts))"
      by simp
    from True t have "\<not> distinct (map fst kws @ map fst (t # ts))" by auto
    then have c: "distinct (map fst kws @ map fst (t # ts)) \<longrightarrow>
        idx = kws @ map own_entry (t # ts)"
      by blast
    from l step have g: "get_keywords_loop kws (r # rs) = Inr idx" by simp
    from g mm c show ?thesis by blast
  next
    case False
    have step: "get_keywords_row kws r = Inr (kws @ [(name, [d, s])])"
      using img False sec ne dom by (rule row_explicit)
    from Cons.IH [of "kws @ [(name, [d, s])]"] obtain idx where
      l: "get_keywords_loop (kws @ [(name, [d, s])]) rs = Inr idx"
      and m: "map_of idx = map_of ((kws @ [(name, [d, s])]) @ map own_entry ts)"
      and x: "distinct (map fst (kws @ [(name, [d, s])]) @ map fst ts) \<longrightarrow>
          idx = (kws @ [(name, [d, s])]) @ map own_entry ts"
      by blast
    from m e have mm: "map_of idx = map_of (kws @ map own_entry (t # ts))"
      by simp
    from x e t have c: "distinct (map fst kws @ map fst (t # ts)) \<longrightarrow>
        idx = kws @ map own_entry (t # ts)"
      by simp
    from l step have g: "get_keywords_loop kws (r # rs) = Inr idx" by simp
    from g mm c show ?thesis by blast
  qed
qed

subsection \<open>The loop of the driver\<close>

lemma length_split: "length (split sep s) = Suc (length (filter (\<lambda>c. c = sep) s))"
proof (induction s)
  case Nil
  then show ?case by simp
next
  case (Cons c cs)
  then show ?case by (cases "split sep cs") auto
qed

lemma process_rows_append:
  "process_rows recognize kws (xs @ ys) out =
     (case process_rows recognize kws xs out of
        (out', None) \<Rightarrow> process_rows recognize kws ys out'
      | (out', Some e) \<Rightarrow> (out', Some e))"
proof (induction xs arbitrary: out)
  case Nil
  then show ?case by simp
next
  case (Cons x xs)
  then show ?case by (cases "process_row recognize kws x") simp_all
qed

lemma process_rows_error:
  "r \<in> set rs \<Longrightarrow> process_row recognize kws r = Inl e \<Longrightarrow>
   snd (process_rows recognize kws rs out) \<noteq> None"
proof (induction rs arbitrary: out)
  case Nil
  then show ?case by simp
next
  case (Cons a rs)
  show ?case
  proof (cases "process_row recognize kws a")
    case (Inl e')
    then show ?thesis by simp
  next
    case (Inr line)
    with Cons.prems have "a \<noteq> r" by auto
    with Cons.prems have "r \<in> set rs" by simp
    from Cons.IH [OF this Cons.prems(2)] Inr show ?thesis by simp
  qed
qed

text \<open>
  The lines written by the loop: one for each row of a prefix of the table, in table
  order; the prefix is the whole table when no exception ends the run, and otherwise
  the row after the prefix is the one that raised.
\<close>

lemma process_rows_lines:
  "process_rows recognize kws rs out0 = (out, err) \<Longrightarrow>
   \<exists>lines. out = out0 @ lines \<and> length lines \<le> length rs
     \<and> (\<forall>i < length lines. process_row recognize kws (rs ! i) = Inr (lines ! i))
     \<and> (err = None \<longleftrightarrow> length lines = length rs)
     \<and> (\<forall>e. err = Some e \<longrightarrow> process_row recognize kws (rs ! length lines) = Inl e)"
proof (induction rs arbitrary: out0)
  case Nil
  then show ?case by auto
next
  case (Cons r rs)
  show ?case
  proof (cases "process_row recognize kws r")
    case (Inl e)
    with Cons.prems have "out = out0" "err = Some e" by simp_all
    with Inl show ?thesis by simp
  next
    case (Inr line)
    with Cons.prems have "process_rows recognize kws rs (out0 @ [line]) = (out, err)" by simp
    from Cons.IH [OF this] obtain lines where
      o: "out = (out0 @ [line]) @ lines" and l: "length lines \<le> length rs"
      and p: "\<forall>i < length lines. process_row recognize kws (rs ! i) = Inr (lines ! i)"
      and n: "err = None \<longleftrightarrow> length lines = length rs"
      and e: "\<forall>e. err = Some e \<longrightarrow> process_row recognize kws (rs ! length lines) = Inl e"
      by blast
    have p': "\<forall>i < length (line # lines).
        process_row recognize kws ((r # rs) ! i) = Inr ((line # lines) ! i)"
    proof (intro allI impI)
      fix i
      assume "i < length (line # lines)"
      with p Inr show "process_row recognize kws ((r # rs) ! i) = Inr ((line # lines) ! i)"
        by (cases i) simp_all
    qed
    from o have o': "out = out0 @ (line # lines)" by simp
    from l have l': "length (line # lines) \<le> length (r # rs)" by simp
    from n have n': "err = None \<longleftrightarrow> length (line # lines) = length (r # rs)" by simp
    from e have e': "\<forall>e. err = Some e \<longrightarrow>
        process_row recognize kws ((r # rs) ! length (line # lines)) = Inl e"
      by simp
    from o' l' p' n' e' show ?thesis by blast
  qed
qed

text \<open>The record that \<open>transcribe\<close> returns is the sentinel or a spot: four values.\<close>

lemma first_spot_shape:
  "first_spot results = Inr tr \<Longrightarrow> tr = sentinel \<or> (\<exists>s. tr = spot_dict s)"
proof (cases results)
  case Nil
  assume "first_spot results = Inr tr"
  with Nil show ?thesis by simp
next
  case (Cons seg others)
  assume "first_spot results = Inr tr"
  with Cons show ?thesis
    by (auto split: option.splits list.splits prod.splits)
qed

lemma transcribe_shape:
  "transcribe recognize audio_path kw = Inr tr \<Longrightarrow> tr = sentinel \<or> (\<exists>s. tr = spot_dict s)"
  by (cases "recognize audio_path kw") (simp_all add: transcribe_def first_spot_shape)

lemma values_list_four:
  "tr = sentinel \<or> (\<exists>s. tr = spot_dict s) \<Longrightarrow> length (values_list tr) = 4"
  by (auto simp: sentinel_def spot_dict_def values_list_def)

lemma process_row_line:
  assumes "process_row recognize kws r = Inr line"
  shows "\<exists>tr. line = map PStr (values_list r) @ values_list tr
     \<and> (tr = sentinel \<or> (\<exists>s. tr = spot_dict s))"
proof -
  from assms obtain p where p: "getitem r ''audio_path'' = Inr p"
    by (cases "getitem r ''audio_path''") (simp_all add: process_row_def)
  have "\<not> length (split CHR ''/'' p) < 3"
  proof
    assume "length (split CHR ''/'' p) < 3"
    from process_row_bad_path [OF p this] assms show False by simp
  qed
  then have "3 \<le> length (split CHR ''/'' p)" by simp
  from last3_three [OF this] obtain a b c where
    l: "last3 (split CHR ''/'' p) = [a, b, c]" by blast
  note g = process_row_good_path [OF p l, of recognize kws]
  from assms g obtain name where n: "getitem r ''img'' = Inr name"
    by (cases "getitem r ''img''") simp_all
  from assms g n obtain kw where k: "getitem kws name = Inr kw"
    by (cases "getitem kws name") simp_all
  from assms g n k obtain tr where
    t: "transcribe recognize (join data_path a b c) kw = Inr tr"
    by (cases "transcribe recognize (join data_path a b c) kw") simp_all
  from assms g n k t have "line = map PStr (values_list r) @ values_list tr" by simp
  with transcribe_shape [OF t] show ?thesis by blast
qed

section \<open>The transcriber\<close>

text \<open>
  What \<open>transcribe\<close> does on each shape of the answer \<open>results\<close> of the service. It looks
  at the first segment only. With no segment, or with a first segment whose
  \<^verbatim>\<open>keywords_result\<close> is absent or empty, the guards of line 106 lead to the sentinel of
  line 109, whatever the alternatives and the later segments hold. With a non-empty
  \<^verbatim>\<open>keywords_result\<close> the first key is taken: if that key has a spot, the first spot is
  returned; if the spot list of that key is empty, the subscript \<^verbatim>\<open>[0]\<close> of line 108
  raises IndexError.
\<close>

lemma transcribe_shapes:
  assumes "recognize audio_path keywords = Inr results"
  shows "(results = [] \<longrightarrow> transcribe recognize audio_path keywords = Inr sentinel)
    \<and> (\<forall>seg others. results = seg # others \<longrightarrow>
         (keywords_result seg = None \<or> keywords_result seg = Some [] \<longrightarrow>
            transcribe recognize audio_path keywords = Inr sentinel)
       \<and> (\<forall>key s ss more. keywords_result seg = Some ((key, s # ss) # more) \<longrightarrow>
            transcribe recognize audio_path keywords = Inr (spot_dict s))
       \<and> (\<forall>key more. keywords_result seg = Some ((key, []) # more) \<longrightarrow>
            transcribe recognize audio_path keywords = Inl IndexError))"
  using assms by (auto simp: transcribe_def)

text \<open>
  At the response of the source comment the spot of \<^verbatim>\<open>wolf\<close> is returned and the
  alternative \<^verbatim>\<open>well\<close> is dropped.
\<close>

lemma transcribe_wolf_response:
  "transcribe (respond [wolf_segment])
     ''/home/sichao/Documents/wc/Data/s1/trgt_audio/wolf.wav'' [''wolf'', ''wolves'']
   = Inr [(''normalized_text'', PStr ''wolf''), (''start_time'', PNum 2),
          (''confidence'', PNum (3 / 100)), (''end_time'', PNum (211 / 100))]"
  by (simp add: transcribe_def respond_def spot_dict_def wolf_segment_def)

section \<open>The keyword index\<close>

text \<open>
  Claim C10. Every value of the returned index is a list of exactly two strings whose
  second string is not empty, and so is every value of the index as it stands after
  any number \<open>n\<close> of rows: the index after \<open>n\<close> rows is the result of the loop on the
  first \<open>n\<close> rows.
\<close>

theorem get_keywords_entries_well_formed:
  assumes "get_keywords rs = Inr idx"
  shows "(\<forall>x \<in> set idx. length (snd x) = 2 \<and> snd x ! 1 \<noteq> [])
       \<and> (\<forall>n \<le> length rs. \<exists>kws. get_keywords (take n rs) = Inr kws
             \<and> (\<forall>x \<in> set kws. length (snd x) = 2 \<and> snd x ! 1 \<noteq> []))"
proof
  from assms have "index_ok idx" by (rule get_keywords_index_ok)
  then show "\<forall>x \<in> set idx. length (snd x) = 2 \<and> snd x ! 1 \<noteq> []"
    by (simp add: index_ok_iff)
next
  show "\<forall>n \<le> length rs. \<exists>kws. get_keywords (take n rs) = Inr kws
             \<and> (\<forall>x \<in> set kws. length (snd x) = 2 \<and> snd x ! 1 \<noteq> [])"
  proof (intro allI impI)
    fix n
    from assms have "get_keywords_loop [] (take n rs @ drop n rs) = Inr idx"
      by (simp add: get_keywords_def)
    from loop_prefix [OF this] obtain mid where
      mid: "get_keywords (take n rs) = Inr mid" by (auto simp: get_keywords_def)
    then have "index_ok mid" by (rule get_keywords_index_ok)
    with mid show "\<exists>kws. get_keywords (take n rs) = Inr kws
             \<and> (\<forall>x \<in> set kws. length (snd x) = 2 \<and> snd x ! 1 \<noteq> [])"
      by (simp add: index_ok_iff)
  qed
qed

text \<open>The theorem on a table of two explicit rows, after the first row.\<close>

theorem get_keywords_entries_well_formed_witness:
  "(\<exists>kws. get_keywords (take 1 [mk_row ''A'' ''/d/s1/x/a.wav'' ''wolf'' ''wolves'',
                 mk_row ''B'' ''/d/s1/x/b.wav'' ''cat'' ''kitten'']) = Inr kws
      \<and> list_all (\<lambda>x. length (snd x) = 2 \<and> snd x ! 1 \<noteq> []) kws)"
proof -
  have h: "get_keywords [mk_row ''A'' ''/d/s1/x/a.wav'' ''wolf'' ''wolves'',
                 mk_row ''B'' ''/d/s1/x/b.wav'' ''cat'' ''kitten'']
    = Inr [(''A'', [''wolf'', ''wolves'']), (''B'', [''cat'', ''kitten''])]"
    using get_keywords_snoc [of "[mk_row ''A'' ''/d/s1/x/a.wav'' ''wolf'' ''wolves'']"
        "[(''A'', [''wolf'', ''wolves''])]" "mk_row ''B'' ''/d/s1/x/b.wav'' ''cat'' ''kitten''"]
      row_explicit [of "mk_row ''B'' ''/d/s1/x/b.wav'' ''cat'' ''kitten''" "''B''"
        "[(''A'', [''wolf'', ''wolves''])]" "''kitten''" "''cat''"]
    by (simp add: get_keywords_single_explicit)
  from get_keywords_entries_well_formed [OF h] have "\<exists>kws. get_keywords (take 1 [mk_row ''A'' ''/d/s1/x/a.wav'' ''wolf'' ''wolves'',
                 mk_row ''B'' ''/d/s1/x/b.wav'' ''cat'' ''kitten'']) = Inr kws
             \<and> (\<forall>x \<in> set kws. length (snd x) = 2 \<and> snd x ! 1 \<noteq> [])"
    by (simp del: take_Suc_Cons One_nat_def)
  then show ?thesis by (simp add: list_all_iff)
qed

text \<open>
  Claim C2. Let \<open>kws\<close> be the index built from the rows \<open>pre\<close>, and let the next row
  \<open>r\<close> have a stimulus id \<open>name\<close> that is not indexed and an empty \<^verbatim>\<open>secondary\<close> cell.
  If \<open>(img, kw)\<close> is the first entry of \<open>kws\<close>, in insertion order, one of whose two
  words occurs in \<open>name\<close>, then the row stores \<open>kw\<close> itself under \<open>name\<close>, at the end of
  the index, and the finished index of any longer table still maps \<open>name\<close> to \<open>kw\<close>.
\<close>

theorem get_keywords_inherits_first_match:
  assumes pre: "get_keywords pre = Inr kws"
    and img: "getitem r ''img'' = Inr name" and new: "name \<notin> set (map fst kws)"
    and sec: "getitem r ''secondary'' = Inr []"
    and sp: "kws = before @ (img, kw) # rest"
    and none: "\<forall>x \<in> set before. \<not> word_in (snd x) name" and hit: "word_in kw name"
  shows "get_keywords (pre @ [r]) = Inr (kws @ [(name, kw)])
       \<and> (\<forall>post idx. get_keywords (pre @ r # post) = Inr idx \<longrightarrow> map_of idx name = Some kw)"
proof -
  from pre have ok: "index_ok kws" by (rule get_keywords_index_ok)
  have step: "get_keywords_row kws r = Inr (kws @ [(name, kw)])"
    using img new sec ok sp none hit by (rule row_inherit)
  with pre have one: "get_keywords (pre @ [r]) = Inr (kws @ [(name, kw)])"
    by (simp add: get_keywords_snoc)
  have "map_of idx name = Some kw" if "get_keywords (pre @ r # post) = Inr idx" for post idx
  proof -
    from that one have l: "get_keywords_loop (kws @ [(name, kw)]) post = Inr idx"
      using get_keywords_continue [of pre r post] by simp
    from one have ok': "index_ok (kws @ [(name, kw)])" by (rule get_keywords_index_ok)
    from new have "map_of kws name = None" by (simp add: map_of_eq_None_iff)
    then have "map_of (kws @ [(name, kw)]) name = Some kw" by (simp add: map_add_Some_iff)
    with ok' l show ?thesis by (rule loop_keeps)
  qed
  with one show ?thesis by blast
qed

text \<open>
  The theorem on an explicit row \<^verbatim>\<open>A, wolf, wolves\<close> followed by an implicit row
  whose id contains \<^verbatim>\<open>wolf\<close>.
\<close>

theorem get_keywords_inherits_first_match_witness:
  "get_keywords [mk_row ''A'' ''/d/s1/x/a.wav'' ''wolf'' ''wolves'',
                 mk_row ''wolf_2.jpg'' ''/d/s1/x/b.wav'' '''' '''']
   = Inr [(''A'', [''wolf'', ''wolves'']), (''wolf_2.jpg'', [''wolf'', ''wolves''])]"
proof -
  have pre: "get_keywords [mk_row ''A'' ''/d/s1/x/a.wav'' ''wolf'' ''wolves'']
      = Inr [(''A'', [''wolf'', ''wolves''])]"
    by (simp add: get_keywords_single_explicit)
  have img: "getitem (mk_row ''wolf_2.jpg'' ''/d/s1/x/b.wav'' '''' '''') ''img'' = Inr ''wolf_2.jpg''"
    by simp
  have new: "''wolf_2.jpg'' \<notin> set (map fst [(''A'', [''wolf'', ''wolves''])])" by simp
  have sec: "getitem (mk_row ''wolf_2.jpg'' ''/d/s1/x/b.wav'' '''' '''') ''secondary'' = Inr []"
    by simp
  have sp: "[(''A'', [''wolf'', ''wolves''])] = [] @ (''A'', [''wolf'', ''wolves'']) # []" by simp
  have none: "\<forall>x \<in> set []. \<not> word_in (snd x) ''wolf_2.jpg''" by simp
  have hit: "word_in [''wolf'', ''wolves''] ''wolf_2.jpg''" by (simp add: word_in_def)
  from get_keywords_inherits_first_match [OF pre img new sec sp none hit] show ?thesis by simp
qed

text \<open>
  Claim C3. The rows are taken in table order: the result on a table is the result of
  the loop on the rest of the table, started on the index that the rows before have
  built. Let \<open>kws\<close> be the index built from the rows \<open>pre\<close> and let the next row \<open>r\<close>
  have the stimulus id \<open>name\<close>. If \<open>name\<close> is a key of \<open>kws\<close> the row is skipped. If it
  is not, and the \<^verbatim>\<open>secondary\<close> cell \<open>s\<close> of the row is not empty, the row stores the
  list of its own \<^verbatim>\<open>dominant\<close> cell \<open>d\<close> and \<open>s\<close> under \<open>name\<close>. The first occurrence wins:
  whatever the index holds after \<open>r\<close>, the finished index of any longer table holds too.
\<close>

theorem get_keywords_first_occurrence_wins:
  assumes pre: "get_keywords pre = Inr kws" and img: "getitem r ''img'' = Inr name"
  shows "(name \<in> set (map fst kws) \<longrightarrow> get_keywords (pre @ [r]) = Inr kws)
       \<and> (name \<notin> set (map fst kws) \<and> getitem r ''secondary'' = Inr s \<and> s \<noteq> []
            \<and> getitem r ''dominant'' = Inr d \<longrightarrow>
            get_keywords (pre @ [r]) = Inr (kws @ [(name, [d, s])]))
       \<and> get_keywords (pre @ r # post) =
            (case get_keywords (pre @ [r]) of
               Inl e \<Rightarrow> Inl e
             | Inr kws' \<Rightarrow> get_keywords_loop kws' post)
       \<and> (get_keywords (pre @ [r]) = Inr kws' \<and> get_keywords (pre @ r # post) = Inr idx
            \<and> map_of kws' k = Some v \<longrightarrow>
            map_of idx k = Some v)"
proof (intro conjI impI)
  show "get_keywords (pre @ [r]) = Inr kws" if "name \<in> set (map fst kws)"
    using pre img that by (simp add: get_keywords_snoc row_skip)
next
  assume "name \<notin> set (map fst kws) \<and> getitem r ''secondary'' = Inr s \<and> s \<noteq> []
            \<and> getitem r ''dominant'' = Inr d"
  then show "get_keywords (pre @ [r]) = Inr (kws @ [(name, [d, s])])"
    using pre img by (simp add: get_keywords_snoc row_explicit)
next
  show "get_keywords (pre @ r # post) =
      (case get_keywords (pre @ [r]) of
         Inl e \<Rightarrow> Inl e
       | Inr kws' \<Rightarrow> get_keywords_loop kws' post)"
    by (rule get_keywords_continue)
next
  assume "get_keywords (pre @ [r]) = Inr kws' \<and> get_keywords (pre @ r # post) = Inr idx
            \<and> map_of kws' k = Some v"
  then have one: "get_keywords (pre @ [r]) = Inr kws'"
    and all: "get_keywords (pre @ r # post) = Inr idx" and v: "map_of kws' k = Some v"
    by simp_all
  from one have ok: "index_ok kws'" by (rule get_keywords_index_ok)
  from all one have "get_keywords_loop kws' post = Inr idx"
    using get_keywords_continue [of pre r post] by simp
  with ok show "map_of idx k = Some v" using v by (rule loop_keeps)
qed

text \<open>
  The theorem after an explicit row \<^verbatim>\<open>A, wolf, wolves\<close>: a second row with the id
  \<^verbatim>\<open>A\<close> and other words is skipped, a row with the new id \<^verbatim>\<open>B\<close> stores its own words.
\<close>

theorem get_keywords_first_occurrence_wins_witness:
  "get_keywords [mk_row ''A'' ''/d/s1/x/A.wav'' ''wolf'' ''wolves'',
                 mk_row ''A'' ''/d/s2/x/A.wav'' ''dog'' ''puppy'']
     = Inr [(''A'', [''wolf'', ''wolves''])]
   \<and> get_keywords [mk_row ''A'' ''/d/s1/x/A.wav'' ''wolf'' ''wolves'',
                 mk_row ''B'' ''/d/s1/x/B.wav'' ''cat'' ''kitten'']
     = Inr [(''A'', [''wolf'', ''wolves'']), (''B'', [''cat'', ''kitten''])]"
proof -
  have pre: "get_keywords [mk_row ''A'' ''/d/s1/x/A.wav'' ''wolf'' ''wolves'']
      = Inr [(''A'', [''wolf'', ''wolves''])]"
    by (simp add: get_keywords_single_explicit)
  have imgA: "getitem (mk_row ''A'' ''/d/s2/x/A.wav'' ''dog'' ''puppy'') ''img'' = Inr ''A''"
    by simp
  have imgB: "getitem (mk_row ''B'' ''/d/s1/x/B.wav'' ''cat'' ''kitten'') ''img'' = Inr ''B''"
    by simp
  from get_keywords_first_occurrence_wins [OF pre imgA, THEN conjunct1]
  have a: "get_keywords [mk_row ''A'' ''/d/s1/x/A.wav'' ''wolf'' ''wolves'',
                 mk_row ''A'' ''/d/s2/x/A.wav'' ''dog'' ''puppy'']
     = Inr [(''A'', [''wolf'', ''wolves''])]"
    by simp
  from get_keywords_first_occurrence_wins [OF pre imgB, of "''kitten''" "''cat''", THEN conjunct2, THEN conjunct1]
  have b: "get_keywords [mk_row ''A'' ''/d/s1/x/A.wav'' ''wolf'' ''wolves'',
                 mk_row ''B'' ''/d/s1/x/B.wav'' ''cat'' ''kitten'']
     = Inr [(''A'', [''wolf'', ''wolves'']), (''B'', [''cat'', ''kitten''])]"
    by simp
  from a b show ?thesis by simp
qed

text \<open>
  Claim C4, as amended. Let \<open>kws\<close> be the index built from the rows \<open>pre\<close>, and let the
  next row \<open>r\<close> have a stimulus id \<open>name\<close> that is not indexed, an empty \<^verbatim>\<open>secondary\<close>
  cell, and no entry of \<open>kws\<close> with a word that occurs in \<open>name\<close>. Then \<open>r\<close> leaves the
  index as it is, and the subscript \<^verbatim>\<open>keywords[name]\<close> on that index raises KeyError.
  In the finished index \<open>idx\<close> of the whole table the id is absent when no later row
  carries it; whenever it is absent, \<^verbatim>\<open>keywords[name]\<close> raises KeyError, and so does
  the driver on \<open>r\<close> when the audio path of \<open>r\<close> has three segments. An entry that is
  found is never the empty list.
\<close>

theorem get_keywords_unresolved_row:
  assumes pre: "get_keywords pre = Inr kws"
    and img: "getitem r ''img'' = Inr name" and new: "name \<notin> set (map fst kws)"
    and sec: "getitem r ''secondary'' = Inr []"
    and none: "\<forall>x \<in> set kws. \<not> word_in (snd x) name"
    and all: "get_keywords (pre @ r # post) = Inr idx"
  shows "get_keywords (pre @ [r]) = Inr kws
       \<and> getitem kws name = Inl (KeyError name)
       \<and> ((\<forall>r' \<in> set post. getitem r' ''img'' \<noteq> Inr name) \<longrightarrow> name \<notin> set (map fst idx))
       \<and> (name \<notin> set (map fst idx) \<longrightarrow>
            getitem idx name = Inl (KeyError name)
          \<and> (getitem r ''audio_path'' = Inr p \<and> 3 \<le> length (split CHR ''/'' p) \<longrightarrow>
               process_row recognize idx r = Inl (KeyError name)))
       \<and> (getitem idx name = Inr kw \<longrightarrow> kw \<noteq> [])"
proof (intro conjI impI)
  from pre have ok: "index_ok kws" by (rule get_keywords_index_ok)
  have step: "get_keywords_row kws r = Inr kws"
    using img new sec ok none by (rule row_unresolved)
  with pre show one: "get_keywords (pre @ [r]) = Inr kws" by (simp add: get_keywords_snoc)
  from new show "getitem kws name = Inl (KeyError name)" by (simp add: getitem_absent)
  from all one have loop: "get_keywords_loop kws post = Inr idx"
    using get_keywords_continue [of pre r post] by simp
  show "name \<notin> set (map fst idx)" if "\<forall>r' \<in> set post. getitem r' ''img'' \<noteq> Inr name"
  proof
    assume "name \<in> set (map fst idx)"
    from loop_keys [OF ok loop this] new that show False by blast
  qed
  show "getitem idx name = Inl (KeyError name)" if "name \<notin> set (map fst idx)"
    using that by (simp add: getitem_absent)
  show "process_row recognize idx r = Inl (KeyError name)"
    if "name \<notin> set (map fst idx)"
      and "getitem r ''audio_path'' = Inr p \<and> 3 \<le> length (split CHR ''/'' p)"
  proof -
    from that(2) have a: "getitem r ''audio_path'' = Inr p"
      and b: "3 \<le> length (split CHR ''/'' p)" by simp_all
    from that(1) have c: "name \<notin> fst ` set idx" by simp
    from a b img c show ?thesis by (rule process_row_missing_key)
  qed
  show "kw \<noteq> []" if "getitem idx name = Inr kw"
  proof -
    from all have "index_ok idx" by (rule get_keywords_index_ok)
    moreover from that have "map_of idx name = Some kw" by (simp add: getitem_Inr_iff)
    then have "(name, kw) \<in> set idx" by (rule map_of_SomeD)
    ultimately have "length kw = 2" by (auto simp: index_ok_iff)
    then show ?thesis by auto
  qed
qed

text \<open>
  The theorem on an explicit row \<^verbatim>\<open>A, wolf, wolves\<close> followed by an implicit row
  \<^verbatim>\<open>cat.jpg\<close>: no entry for \<^verbatim>\<open>cat.jpg\<close>, and the driver raises KeyError on that row.
\<close>

theorem get_keywords_unresolved_row_witness:
  "get_keywords [mk_row ''A'' ''/d/s1/x/A.wav'' ''wolf'' ''wolves'',
                 mk_row ''cat.jpg'' ''/d/s1/x/cat.wav'' '''' '''']
     = Inr [(''A'', [''wolf'', ''wolves''])]
   \<and> process_row (respond [wolf_segment]) [(''A'', [''wolf'', ''wolves''])]
        (mk_row ''cat.jpg'' ''/d/s1/x/cat.wav'' '''' '''') = Inl (KeyError ''cat.jpg'')"
proof -
  have pre: "get_keywords [mk_row ''A'' ''/d/s1/x/A.wav'' ''wolf'' ''wolves'']
      = Inr [(''A'', [''wolf'', ''wolves''])]"
    by (simp add: get_keywords_single_explicit)
  have img: "getitem (mk_row ''cat.jpg'' ''/d/s1/x/cat.wav'' '''' '''') ''img'' = Inr ''cat.jpg''"
    by simp
  have new: "''cat.jpg'' \<notin> set (map fst [(''A'', [''wolf'', ''wolves''])])" by simp
  have sec: "getitem (mk_row ''cat.jpg'' ''/d/s1/x/cat.wav'' '''' '''') ''secondary'' = Inr []"
    by simp
  have none: "\<forall>x \<in> set [(''A'', [''wolf'', ''wolves''])]. \<not> word_in (snd x) ''cat.jpg''"
    by (simp add: word_in_def)
  have all: "get_keywords ([mk_row ''A'' ''/d/s1/x/A.wav'' ''wolf'' ''wolves'']
       @ mk_row ''cat.jpg'' ''/d/s1/x/cat.wav'' '''' '''' # [])
     = Inr [(''A'', [''wolf'', ''wolves''])]"
    by (simp add: get_keywords_def get_keywords_row_def index_def)
  note t = get_keywords_unresolved_row [OF pre img new sec none all, of "''/d/s1/x/cat.wav''" "respond [wolf_segment]"]
  from t [THEN conjunct1]
  have a: "get_keywords [mk_row ''A'' ''/d/s1/x/A.wav'' ''wolf'' ''wolves'',
                 mk_row ''cat.jpg'' ''/d/s1/x/cat.wav'' '''' '''']
     = Inr [(''A'', [''wolf'', ''wolves''])]"
    by simp
  from t [THEN conjunct2, THEN conjunct2, THEN conjunct2, THEN conjunct1]
  have b: "process_row (respond [wolf_segment]) [(''A'', [''wolf'', ''wolves''])]
        (mk_row ''cat.jpg'' ''/d/s1/x/cat.wav'' '''' '''') = Inl (KeyError ''cat.jpg'')"
    by simp
  from a b show ?thesis by simp
qed

text \<open>
  Claim C4 as stated fails when a later row of the table carries the same stimulus
  id. The first row \<^verbatim>\<open>wolf_b.jpg\<close> is implicit and the index is empty, so the row
  creates no entry. After the explicit row \<^verbatim>\<open>A, wolf, wolves\<close> the third row, again
  \<^verbatim>\<open>wolf_b.jpg\<close>, inherits from \<^verbatim>\<open>A\<close>. The driver runs on the finished index, where
  \<^verbatim>\<open>keywords['wolf_b.jpg']\<close> succeeds.
\<close>

theorem get_keywords_unresolved_row_resolved_later:
  "get_keywords [mk_row ''wolf_b.jpg'' ''/d/s1/x/wolf_b.wav'' '''' ''''] = Inr []
   \<and> get_keywords [mk_row ''wolf_b.jpg'' ''/d/s1/x/wolf_b.wav'' '''' '''',
        mk_row ''A'' ''/d/s1/x/A.wav'' ''wolf'' ''wolves'',
        mk_row ''wolf_b.jpg'' ''/d/s2/x/wolf_b.wav'' '''' '''']
      = Inr [(''A'', [''wolf'', ''wolves'']), (''wolf_b.jpg'', [''wolf'', ''wolves''])]
   \<and> getitem [(''A'', [''wolf'', ''wolves'']), (''wolf_b.jpg'', [''wolf'', ''wolves''])]
        ''wolf_b.jpg'' = Inr [''wolf'', ''wolves'']"
proof -
  have "getitem [(''A'', [''wolf'', ''wolves'']), (''wolf_b.jpg'', [''wolf'', ''wolves''])]
        ''wolf_b.jpg'' = Inr [''wolf'', ''wolves'']"
    by (simp add: getitem_def)
  then show ?thesis
    by (simp add: get_keywords_def get_keywords_row_def index_def)
qed


subsection \<open>Tables in which every row is explicit\<close>

text \<open>
  Claim C6. Let every row of the table be explicit: \<^term>\<open>rs\<close> and \<^term>\<open>ts\<close> are related row
  by row, each row carrying the id, the non-empty dominant and the non-empty secondary keyword of
  its triple. Then \<^const>\<open>get_keywords\<close> returns an index, and looking an id up in that index is
  looking it up among the rows' own pairs: the ids of the index are the ids of the table, each
  mapped to the pair of the first row that carries it (line 50 skips the later rows of the same
  id). Every entry of the index is the own pair of one of the rows, so nothing is inherited from
  a row with another id; when the ids of the table are pairwise different, the index is the list
  of the rows' own pairs, in table order.
\<close>

theorem get_keywords_all_explicit:
  assumes "list_all2 explicit_row rs ts"
  shows "\<exists>idx. get_keywords rs = Inr idx
     \<and> map_of idx = map_of (map own_entry ts)
     \<and> set (map fst idx) = set (map fst ts)
     \<and> set idx \<subseteq> set (map own_entry ts)
     \<and> (distinct (map fst ts) \<longrightarrow> idx = map own_entry ts)"
proof -
  from loop_explicit_rows [OF assms, of "[]"] obtain idx where
    l: "get_keywords rs = Inr idx"
    and m: "map_of idx = map_of (map own_entry ts)"
    and x: "distinct (map fst ts) \<longrightarrow> idx = map own_entry ts"
    by (auto simp: get_keywords_def)
  from m have "dom (map_of idx) = dom (map_of (map own_entry ts))"
    by simp
  then have "fst ` set idx = fst ` set (map own_entry ts)"
    by (simp only: dom_map_of_conv_image_fst)
  also have "\<dots> = fst ` set ts" by (simp add: image_image)
  finally have k: "set (map fst idx) = set (map fst ts)" by simp
  from l have "get_keywords_loop [] rs = Inr idx" by (simp add: get_keywords_def)
  with loop_distinct [of "[]" rs idx] have d: "distinct (map fst idx)" by simp
  have s: "set idx \<subseteq> set (map own_entry ts)"
  proof
    fix e
    assume e: "e \<in> set idx"
    obtain name kw where p: "e = (name, kw)" by (cases e)
    with e d have "map_of idx name = Some kw" by simp
    with m have "map_of (map own_entry ts) name = Some kw" by simp
    then have "(name, kw) \<in> set (map own_entry ts)" by (rule map_of_SomeD)
    with p show "e \<in> set (map own_entry ts)" by simp
  qed
  from l m k s x show ?thesis by blast
qed

text \<open>
  The hypothesis can be met: a table of the two explicit rows \<^verbatim>\<open>A\<close> and \<^verbatim>\<open>B\<close>. The index is
  the list of their own pairs.
\<close>

theorem get_keywords_all_explicit_witness:
  "get_keywords [mk_row ''A'' ''/d/s1/x/a.wav'' ''wolf'' ''wolves'',
                 mk_row ''B'' ''/d/s1/x/b.wav'' ''cat'' ''kitten'']
   = Inr [(''A'', [''wolf'', ''wolves'']), (''B'', [''cat'', ''kitten''])]"
proof -
  have h: "list_all2 explicit_row
      [mk_row ''A'' ''/d/s1/x/a.wav'' ''wolf'' ''wolves'',
       mk_row ''B'' ''/d/s1/x/b.wav'' ''cat'' ''kitten'']
      [(''A'', ''wolf'', ''wolves''), (''B'', ''cat'', ''kitten'')]"
    by (simp add: explicit_row_def)
  from get_keywords_all_explicit [OF h] show ?thesis by (auto simp: own_entry_def)
qed

subsection \<open>An explicit row followed by an implicit row\<close>

text \<open>
  Claim C7, as amended. Take a table of two rows: an explicit row with the id \<open>a\<close> and the
  keywords \<open>d\<close> and \<open>s\<close>, followed by an implicit row (its \<^verbatim>\<open>secondary\<close> cell is empty) with
  another id \<open>x\<close>. The scan of lines 55 to 58 reaches the entry of \<open>a\<close>, the only one, and
  compares its two keywords with \<open>x\<close>; the id \<open>a\<close> is not compared with anything. So the index
  maps \<open>x\<close> to the pair \<open>(d, s)\<close> exactly when \<open>d\<close> or \<open>s\<close> is a substring of \<open>x\<close>, that is
  when \<open>x\<close> is some \<open>u\<close>, then the keyword, then some \<open>v\<close>, with no condition on word
  boundaries; otherwise \<open>x\<close> has no entry.
\<close>

theorem get_keywords_inherits_by_keyword:
  assumes a: "getitem r1 ''img'' = Inr a" and d: "getitem r1 ''dominant'' = Inr d"
    and s: "getitem r1 ''secondary'' = Inr s" and ne: "s \<noteq> []"
    and x: "getitem r2 ''img'' = Inr x" and e: "getitem r2 ''secondary'' = Inr []"
    and xa: "x \<noteq> a"
  shows "get_keywords [r1, r2] =
           Inr (if (\<exists>u v. x = u @ d @ v) \<or> (\<exists>u v. x = u @ s @ v)
                then [(a, [d, s]), (x, [d, s])] else [(a, [d, s])])
     \<and> (\<forall>idx. get_keywords [r1, r2] = Inr idx \<longrightarrow>
          (map_of idx x = Some [d, s] \<longleftrightarrow> (\<exists>u v. x = u @ d @ v) \<or> (\<exists>u v. x = u @ s @ v))
        \<and> (map_of idx x = None \<longleftrightarrow> \<not> ((\<exists>u v. x = u @ d @ v) \<or> (\<exists>u v. x = u @ s @ v))))"
proof -
  let ?hit = "(\<exists>u v. x = u @ d @ v) \<or> (\<exists>u v. x = u @ s @ v)"
  have w: "word_in [d, s] x \<longleftrightarrow> ?hit" by (simp add: word_in_def str_in_iff)
  have "get_keywords_row [] r1 = Inr ([] @ [(a, [d, s])])"
    by (rule row_explicit [OF a _ s ne d]) simp
  with get_keywords_snoc [of "[]" "[]" r1] have one: "get_keywords [r1] = Inr [(a, [d, s])]"
    by simp
  from ne have ok: "index_ok [(a, [d, s])]" by (simp add: entry_ok_def)
  from xa have new: "x \<notin> set (map fst [(a, [d, s])])" by simp
  have two: "get_keywords [r1, r2] = get_keywords_row [(a, [d, s])] r2"
    using get_keywords_snoc [OF one, of r2] by simp
  have eq: "get_keywords [r1, r2] = Inr (if ?hit then [(a, [d, s]), (x, [d, s])] else [(a, [d, s])])"
  proof (cases ?hit)
    case True
    with w have hit: "word_in [d, s] x" by blast
    have sp: "[(a, [d, s])] = [] @ (a, [d, s]) # []" by simp
    have none: "\<forall>y \<in> set []. \<not> word_in (snd y) x" by simp
    from row_inherit [OF x new e ok sp none hit] two True show ?thesis by simp
  next
    case False
    with w have "\<not> word_in [d, s] x" by blast
    then have none: "\<forall>y \<in> set [(a, [d, s])]. \<not> word_in (snd y) x" by simp
    from row_unresolved [OF x new e ok none] two False show ?thesis by simp
  qed
  from xa have m1: "map_of [(a, [d, s]), (x, [d, s])] x = Some [d, s]" by simp
  from xa have m2: "map_of [(a, [d, s])] x = None" by simp
  have "\<forall>idx. get_keywords [r1, r2] = Inr idx \<longrightarrow>
          (map_of idx x = Some [d, s] \<longleftrightarrow> ?hit) \<and> (map_of idx x = None \<longleftrightarrow> \<not> ?hit)"
  proof (cases ?hit)
    case True
    with eq have "get_keywords [r1, r2] = Inr [(a, [d, s]), (x, [d, s])]" by simp
    with m1 True show ?thesis by simp
  next
    case False
    with eq have "get_keywords [r1, r2] = Inr [(a, [d, s])]" by simp
    with m2 False show ?thesis by simp
  qed
  with eq show ?thesis by blast
qed

text \<open>
  The hypotheses can be met: after the row \<^verbatim>\<open>A\<close> with the keywords \<^verbatim>\<open>wolf\<close> and
  \<^verbatim>\<open>wolves\<close>, the implicit row \<^verbatim>\<open>wolf_trial2\<close> inherits the pair, the keyword
  \<^verbatim>\<open>wolf\<close> being a substring of its id.
\<close>

theorem get_keywords_inherits_by_keyword_witness:
  "get_keywords [mk_row ''A'' ''/d/s1/x/a.wav'' ''wolf'' ''wolves'',
                 mk_row ''wolf_trial2'' ''/d/s1/x/b.wav'' '''' '''']
   = Inr [(''A'', [''wolf'', ''wolves'']), (''wolf_trial2'', [''wolf'', ''wolves''])]"
proof -
  have a: "getitem (mk_row ''A'' ''/d/s1/x/a.wav'' ''wolf'' ''wolves'') ''img'' = Inr ''A''"
    and d: "getitem (mk_row ''A'' ''/d/s1/x/a.wav'' ''wolf'' ''wolves'') ''dominant'' = Inr ''wolf''"
    and s: "getitem (mk_row ''A'' ''/d/s1/x/a.wav'' ''wolf'' ''wolves'') ''secondary'' = Inr ''wolves''"
    and ne: "''wolves'' \<noteq> []"
    and x: "getitem (mk_row ''wolf_trial2'' ''/d/s1/x/b.wav'' '''' '''') ''img'' = Inr ''wolf_trial2''"
    and e: "getitem (mk_row ''wolf_trial2'' ''/d/s1/x/b.wav'' '''' '''') ''secondary'' = Inr []"
    and xa: "''wolf_trial2'' \<noteq> ''A''"
    by simp_all
  have "str_in ''wolf'' ''wolf_trial2''" by simp
  then have h: "\<exists>u v. ''wolf_trial2'' = u @ ''wolf'' @ v" by (simp only: str_in_iff)
  from get_keywords_inherits_by_keyword [OF a d s ne x e xa, THEN conjunct1] h
  show ?thesis by simp
qed

text \<open>
  Claim C7 as stated fails on its own table. \<^verbatim>\<open>A\<close> is a substring of \<^verbatim>\<open>A_trial2\<close> and the
  scan reaches the entry of \<^verbatim>\<open>A\<close>, yet the index has no entry for \<^verbatim>\<open>A_trial2\<close>: neither
  \<^verbatim>\<open>wolf\<close> nor \<^verbatim>\<open>wolves\<close> occurs in \<^verbatim>\<open>A_trial2\<close>.
\<close>

theorem get_keywords_id_is_not_matched:
  "get_keywords [mk_row ''A'' ''/d/s1/x/a.wav'' ''wolf'' ''wolves'',
                 mk_row ''A_trial2'' ''/d/s1/x/b.wav'' '''' '''']
     = Inr [(''A'', [''wolf'', ''wolves''])]
   \<and> map_of [(''A'', [''wolf'', ''wolves''])] ''A_trial2'' = None
   \<and> str_in ''A'' ''A_trial2''"
  by (simp add: get_keywords_def get_keywords_row_def index_def)

subsection \<open>Tables without the keyword columns\<close>

text \<open>
  Claim C8, as amended. \<open>get_keywords\<close> reads the cell \<^verbatim>\<open>secondary\<close> of every row whose id
  is new (line 51) and the cell \<^verbatim>\<open>dominant\<close> of every such row that has keywords (line 52),
  with a plain subscript. On a table whose rows all have the columns \<^verbatim>\<open>img\<close>,
  \<^verbatim>\<open>dominant\<close> and \<^verbatim>\<open>secondary\<close>, their cells empty or not, it completes and returns an
  index. The columns themselves are required: on a table whose first row has the column
  \<^verbatim>\<open>img\<close> and no column \<^verbatim>\<open>secondary\<close>, the subscript of line 51 raises KeyError at that
  first row.
\<close>

theorem get_keywords_needs_keyword_columns:
  "((\<forall>r \<in> set rs. {''img'', ''dominant'', ''secondary''} \<subseteq> fst ` set r)
       \<longrightarrow> (\<exists>idx. get_keywords rs = Inr idx))
   \<and> (''img'' \<in> fst ` set r \<and> ''secondary'' \<notin> fst ` set r
       \<longrightarrow> get_keywords (r # rest) = Inl (KeyError ''secondary''))"
proof (intro conjI impI)
  assume "\<forall>r \<in> set rs. {''img'', ''dominant'', ''secondary''} \<subseteq> fst ` set r"
  with loop_total [of "[]" rs] show "\<exists>idx. get_keywords rs = Inr idx"
    by (simp add: get_keywords_def)
next
  assume h: "''img'' \<in> fst ` set r \<and> ''secondary'' \<notin> fst ` set r"
  then obtain name where g: "getitem r ''img'' = Inr name" using getitem_present by blast
  from h have "getitem r ''secondary'' = Inl (KeyError ''secondary'')"
    by (simp add: getitem_absent)
  with g have "get_keywords_row [] r = Inl (KeyError ''secondary'')"
    by (simp add: get_keywords_row_def)
  then show "get_keywords (r # rest) = Inl (KeyError ''secondary'')"
    by (simp add: get_keywords_def)
qed

text \<open>
  Both hypotheses can be met: a table with the three columns, one of its rows implicit, and a
  table of two rows with the columns \<^verbatim>\<open>img\<close> and \<^verbatim>\<open>audio_path\<close> only.
\<close>

theorem get_keywords_needs_keyword_columns_witness:
  "(\<exists>idx. get_keywords [mk_row ''A'' ''/d/s1/x/a.wav'' ''wolf'' ''wolves'',
                         mk_row ''wolf_2.jpg'' ''/d/s1/x/b.wav'' '''' ''''] = Inr idx)
   \<and> get_keywords [[(''img'', ''A''), (''audio_path'', ''/d/s1/x/a.wav'')],
                   [(''img'', ''B''), (''audio_path'', ''/d/s1/x/b.wav'')]]
       = Inl (KeyError ''secondary'')"
proof
  from get_keywords_needs_keyword_columns
    [of "[mk_row ''A'' ''/d/s1/x/a.wav'' ''wolf'' ''wolves'',
          mk_row ''wolf_2.jpg'' ''/d/s1/x/b.wav'' '''' '''']", THEN conjunct1]
  show "\<exists>idx. get_keywords [mk_row ''A'' ''/d/s1/x/a.wav'' ''wolf'' ''wolves'',
                         mk_row ''wolf_2.jpg'' ''/d/s1/x/b.wav'' '''' ''''] = Inr idx"
    by (simp add: mk_row_def)
next
  from get_keywords_needs_keyword_columns
    [of _ "[(''img'', ''A''), (''audio_path'', ''/d/s1/x/a.wav'')]"
        "[[(''img'', ''B''), (''audio_path'', ''/d/s1/x/b.wav'')]]", THEN conjunct2]
  show "get_keywords [[(''img'', ''A''), (''audio_path'', ''/d/s1/x/a.wav'')],
                   [(''img'', ''B''), (''audio_path'', ''/d/s1/x/b.wav'')]]
       = Inl (KeyError ''secondary'')"
    by simp
qed

text \<open>
  Claim C8 as stated fails on the table of one row with the columns \<^verbatim>\<open>img\<close> and
  \<^verbatim>\<open>audio_path\<close> only: no index is returned, line 51 raises KeyError.
\<close>

theorem get_keywords_without_keyword_columns:
  "get_keywords [[(''img'', ''A''), (''audio_path'', ''/d/s1/x/a.wav'')]]
     = Inl (KeyError ''secondary'')"
  by (simp add: get_keywords_def get_keywords_row_def getitem_def)

section \<open>The driver\<close>

text \<open>
  Claim C9. Let the cell \<^verbatim>\<open>audio_path\<close> of the row \<open>r\<close> have fewer than three pieces
  between its separators \<^verbatim>\<open>/\<close>. The unpacking of line 131 into three names then raises
  ValueError on \<open>r\<close>, whatever the index and the service are. Nothing catches it: the loop
  that reaches \<open>r\<close> stops there with the lines written so far, and the rows after \<open>r\<close> are
  not processed. So when the rows \<open>pre\<close> before \<open>r\<close> have been written without an
  exception, the run on the table ends at \<open>r\<close> with ValueError and with the lines of \<open>pre\<close>
  only; and no run on a table that has such a row ends without an exception.
\<close>

theorem driver_stops_at_short_path:
  assumes p: "getitem r ''audio_path'' = Inr p"
    and short: "length (split CHR ''/'' p) < 3"
  shows "process_row recognize kws r = Inl ValueError
    \<and> process_rows recognize kws (r # post) out = (out, Some ValueError)
    \<and> (process_rows recognize kws pre out = (out', None) \<longrightarrow>
         process_rows recognize kws (pre @ r # post) out = (out', Some ValueError))
    \<and> (get_keywords (pre @ r # post) = Inr kws
         \<and> process_rows recognize kws pre [map PStr (fs @ kws_columns)] = (out', None) \<longrightarrow>
         main recognize \<lparr>fieldnames = fs, rows = pre @ r # post\<rparr> = (out', Some ValueError))
    \<and> (r \<in> set (rows t) \<longrightarrow> snd (main recognize t) \<noteq> None)"
proof -
  have row: "process_row recognize k r = Inl ValueError" for k
    using p short by (rule process_row_bad_path)
  have stop: "process_rows recognize kws (r # post) o1 = (o1, Some ValueError)" for o1
    by (simp add: row)
  have app: "process_rows recognize kws (pre @ r # post) o1 = (o2, Some ValueError)"
    if "process_rows recognize kws pre o1 = (o2, None)" for o1 o2
    using that by (simp add: process_rows_append row)
  have m: "main recognize \<lparr>fieldnames = fs, rows = pre @ r # post\<rparr> = (out', Some ValueError)"
    if "get_keywords (pre @ r # post) = Inr kws"
      and "process_rows recognize kws pre [map PStr (fs @ kws_columns)] = (out', None)"
    using that app by (simp add: main_def)
  have never: "snd (main recognize t) \<noteq> None" if mem: "r \<in> set (rows t)"
  proof (cases "get_keywords (rows t)")
    case (Inl e)
    then show ?thesis by (simp add: main_def)
  next
    case (Inr k)
    from process_rows_error [OF mem row [of k]] Inr show ?thesis by (simp add: main_def)
  qed
  from row stop app m never show ?thesis by blast
qed

text \<open>
  The hypotheses can be met: in a table of three rows the second row has the path
  \<^verbatim>\<open>x/b.wav\<close>, of two pieces. The header and the line of the first row are written,
  then the run ends with ValueError; the third row is not processed.
\<close>

theorem driver_stops_at_short_path_witness:
  "main (respond [wolf_segment])
     \<lparr>fieldnames = [''img'', ''audio_path'', ''dominant'', ''secondary''],
      rows = [mk_row ''A'' ''/d/s1/x/a.wav'' ''wolf'' ''wolves'',
              mk_row ''B'' ''x/b.wav'' ''cat'' ''kitten'',
              mk_row ''C'' ''/d/s1/x/c.wav'' ''dog'' ''puppy'']\<rparr>
   = ([[PStr ''img'', PStr ''audio_path'', PStr ''dominant'', PStr ''secondary'',
        PStr ''kws_word'', PStr ''kws_start_t'', PStr ''kws_conf'', PStr ''kws_end_t''],
       [PStr ''A'', PStr ''/d/s1/x/a.wav'', PStr ''wolf'', PStr ''wolves'',
        PStr ''wolf'', PNum 2, PNum (3 / 100), PNum (211 / 100)]],
      Some ValueError)"
proof -
  have p: "getitem (mk_row ''B'' ''x/b.wav'' ''cat'' ''kitten'') ''audio_path'' = Inr ''x/b.wav''"
    by simp
  have short: "length (split CHR ''/'' ''x/b.wav'') < 3" by simp
  have idx: "get_keywords ([mk_row ''A'' ''/d/s1/x/a.wav'' ''wolf'' ''wolves'']
        @ mk_row ''B'' ''x/b.wav'' ''cat'' ''kitten''
        # [mk_row ''C'' ''/d/s1/x/c.wav'' ''dog'' ''puppy''])
      = Inr [(''A'', [''wolf'', ''wolves'']), (''B'', [''cat'', ''kitten'']),
             (''C'', [''dog'', ''puppy''])]"
    by (simp add: get_keywords_def get_keywords_row_def index_def)
  have first: "process_rows (respond [wolf_segment])
        [(''A'', [''wolf'', ''wolves'']), (''B'', [''cat'', ''kitten'']), (''C'', [''dog'', ''puppy''])]
        [mk_row ''A'' ''/d/s1/x/a.wav'' ''wolf'' ''wolves'']
        [map PStr ([''img'', ''audio_path'', ''dominant'', ''secondary''] @ kws_columns)]
      = ([[PStr ''img'', PStr ''audio_path'', PStr ''dominant'', PStr ''secondary'',
           PStr ''kws_word'', PStr ''kws_start_t'', PStr ''kws_conf'', PStr ''kws_end_t''],
          [PStr ''A'', PStr ''/d/s1/x/a.wav'', PStr ''wolf'', PStr ''wolves'',
           PStr ''wolf'', PNum 2, PNum (3 / 100), PNum (211 / 100)]], None)"
    by (simp add: process_row_def last3_def getitem_def transcribe_def respond_def
        wolf_segment_def spot_dict_def values_list_def mk_row_def kws_columns_def)
  from driver_stops_at_short_path [OF p short, THEN conjunct2, THEN conjunct2,
      THEN conjunct2, THEN conjunct1, rule_format, OF conjI, OF idx first]
  show ?thesis by simp
qed

text \<open>
  Claim C5. Let the index of the table be built and let the run of the driver end with
  the written lines \<open>out\<close> and the exception \<open>err\<close>, if any. The first line of \<open>out\<close> is
  the header: the column names of the table followed by the four names
  \<^verbatim>\<open>kws_word\<close>, \<^verbatim>\<open>kws_start_t\<close>, \<^verbatim>\<open>kws_conf\<close>, \<^verbatim>\<open>kws_end_t\<close>. The lines after it belong to
  the rows of the table, one line per processed row, in table order: line \<open>i\<close> starts
  with the values of row \<open>i\<close>, unchanged and in the order of the row, and ends with the
  four values of the record that \<open>transcribe\<close> returned, which is the sentinel when no
  keyword was spotted and the spot otherwise. When no exception ends the run, every row
  of the table has its line.
\<close>

theorem main_frame:
  assumes run: "main recognize t = (out, err)"
    and idx: "get_keywords (rows t) = Inr kws"
  shows "out \<noteq> [] \<and> hd out = map PStr (fieldnames t @ kws_columns)
    \<and> length (tl out) \<le> length (rows t)
    \<and> (\<forall>i < length (tl out). \<exists>tr.
          tl out ! i = map PStr (values_list (rows t ! i)) @ values_list tr
        \<and> length (values_list tr) = 4
        \<and> (tr = sentinel \<or> (\<exists>s. tr = spot_dict s))
        \<and> take (length (rows t ! i)) (tl out ! i) = map PStr (values_list (rows t ! i))
        \<and> length (tl out ! i) = length (rows t ! i) + 4)
    \<and> (err = None \<longrightarrow> length (tl out) = length (rows t))"
proof -
  let ?h = "map PStr (fieldnames t @ kws_columns)"
  from run idx have "process_rows recognize kws (rows t) [?h] = (out, err)"
    by (simp add: main_def)
  from process_rows_lines [OF this] obtain lines where
    o: "out = [?h] @ lines" and l: "length lines \<le> length (rows t)"
    and p: "\<forall>i < length lines. process_row recognize kws (rows t ! i) = Inr (lines ! i)"
    and n: "err = None \<longleftrightarrow> length lines = length (rows t)"
    by blast
  from o have t: "tl out = lines" and h: "hd out = ?h" and ne: "out \<noteq> []" by simp_all
  have each: "\<forall>i < length lines. \<exists>tr.
          lines ! i = map PStr (values_list (rows t ! i)) @ values_list tr
        \<and> length (values_list tr) = 4
        \<and> (tr = sentinel \<or> (\<exists>s. tr = spot_dict s))
        \<and> take (length (rows t ! i)) (lines ! i) = map PStr (values_list (rows t ! i))
        \<and> length (lines ! i) = length (rows t ! i) + 4"
  proof (intro allI impI)
    fix i
    assume "i < length lines"
    with p have "process_row recognize kws (rows t ! i) = Inr (lines ! i)" by simp
    from process_row_line [OF this] obtain tr where
      e: "lines ! i = map PStr (values_list (rows t ! i)) @ values_list tr"
      and s: "tr = sentinel \<or> (\<exists>s. tr = spot_dict s)"
      by blast
    from s have f: "length (values_list tr) = 4" by (rule values_list_four)
    from e have k: "take (length (rows t ! i)) (lines ! i) = map PStr (values_list (rows t ! i))"
      by (simp add: values_list_def)
    from e f have m: "length (lines ! i) = length (rows t ! i) + 4"
      by (simp add: values_list_def)
    from e f s k m show "\<exists>tr.
          lines ! i = map PStr (values_list (rows t ! i)) @ values_list tr
        \<and> length (values_list tr) = 4
        \<and> (tr = sentinel \<or> (\<exists>s. tr = spot_dict s))
        \<and> take (length (rows t ! i)) (lines ! i) = map PStr (values_list (rows t ! i))
        \<and> length (lines ! i) = length (rows t ! i) + 4"
      by blast
  qed
  from ne h l each n show ?thesis unfolding t by blast
qed

text \<open>
  The hypotheses can be met: a table of two rows and a service that spots \<^verbatim>\<open>wolf\<close> when
  asked for the keywords of the first row and answers with no segment otherwise. The run
  ends without an exception; the line of the first row ends with the spot, the line of
  the second row with four blanks.
\<close>

theorem main_frame_witness:
  "main (\<lambda>p k. if k = [''wolf'', ''wolves''] then Inr [wolf_segment] else Inr [])
     \<lparr>fieldnames = [''img'', ''audio_path'', ''dominant'', ''secondary''],
      rows = [mk_row ''A'' ''/d/s1/x/a.wav'' ''wolf'' ''wolves'',
              mk_row ''B'' ''/d/s1/x/b.wav'' ''cat'' ''kitten'']\<rparr>
   = ([[PStr ''img'', PStr ''audio_path'', PStr ''dominant'', PStr ''secondary'',
        PStr ''kws_word'', PStr ''kws_start_t'', PStr ''kws_conf'', PStr ''kws_end_t''],
       [PStr ''A'', PStr ''/d/s1/x/a.wav'', PStr ''wolf'', PStr ''wolves'',
        PStr ''wolf'', PNum 2, PNum (3 / 100), PNum (211 / 100)],
       [PStr ''B'', PStr ''/d/s1/x/b.wav'', PStr ''cat'', PStr ''kitten'',
        PStr '''', PStr '''', PStr '''', PStr '''']],
      None)
   \<and> length (tl [[PStr ''img'', PStr ''audio_path'', PStr ''dominant'', PStr ''secondary'',
        PStr ''kws_word'', PStr ''kws_start_t'', PStr ''kws_conf'', PStr ''kws_end_t''],
       [PStr ''A'', PStr ''/d/s1/x/a.wav'', PStr ''wolf'', PStr ''wolves'',
        PStr ''wolf'', PNum 2, PNum (3 / 100), PNum (211 / 100)],
       [PStr ''B'', PStr ''/d/s1/x/b.wav'', PStr ''cat'', PStr ''kitten'',
        PStr '''', PStr '''', PStr '''', PStr '''']])
     = length (rows \<lparr>fieldnames = [''img'', ''audio_path'', ''dominant'', ''secondary''],
      rows = [mk_row ''A'' ''/d/s1/x/a.wav'' ''wolf'' ''wolves'',
              mk_row ''B'' ''/d/s1/x/b.wav'' ''cat'' ''kitten'']\<rparr>)"
proof -
  have idx: "get_keywords (rows \<lparr>fieldnames = [''img'', ''audio_path'', ''dominant'', ''secondary''],
      rows = [mk_row ''A'' ''/d/s1/x/a.wav'' ''wolf'' ''wolves'',
              mk_row ''B'' ''/d/s1/x/b.wav'' ''cat'' ''kitten'']\<rparr>)
      = Inr [(''A'', [''wolf'', ''wolves'']), (''B'', [''cat'', ''kitten''])]"
    by (simp add: get_keywords_def get_keywords_row_def index_def)
  have run: "main (\<lambda>p k. if k = [''wolf'', ''wolves''] then Inr [wolf_segment] else Inr [])
     \<lparr>fieldnames = [''img'', ''audio_path'', ''dominant'', ''secondary''],
      rows = [mk_row ''A'' ''/d/s1/x/a.wav'' ''wolf'' ''wolves'',
              mk_row ''B'' ''/d/s1/x/b.wav'' ''cat'' ''kitten'']\<rparr>
   = ([[PStr ''img'', PStr ''audio_path'', PStr ''dominant'', PStr ''secondary'',
        PStr ''kws_word'', PStr ''kws_start_t'', PStr ''kws_conf'', PStr ''kws_end_t''],
       [PStr ''A'', PStr ''/d/s1/x/a.wav'', PStr ''wolf'', PStr ''wolves'',
        PStr ''wolf'', PNum 2, PNum (3 / 100), PNum (211 / 100)],
       [PStr ''B'', PStr ''/d/s1/x/b.wav'', PStr ''cat'', PStr ''kitten'',
        PStr '''', PStr '''', PStr '''', PStr '''']],
      None)"
    unfolding main_def idx
    by (simp add: process_row_def last3_def getitem_def transcribe_def sentinel_def
        wolf_segment_def spot_dict_def values_list_def mk_row_def kws_columns_def)
  from main_frame [OF run idx, THEN conjunct2, THEN conjunct2, THEN conjunct2, THEN conjunct2]
  have "length (tl [[PStr ''img'', PStr ''audio_path'', PStr ''dominant'', PStr ''secondary'',
        PStr ''kws_word'', PStr ''kws_start_t'', PStr ''kws_conf'', PStr ''kws_end_t''],
       [PStr ''A'', PStr ''/d/s1/x/a.wav'', PStr ''wolf'', PStr ''wolves'',
        PStr ''wolf'', PNum 2, PNum (3 / 100), PNum (211 / 100)],
       [PStr ''B'', PStr ''/d/s1/x/b.wav'', PStr ''cat'', PStr ''kitten'',
        PStr '''', PStr '''', PStr '''', PStr '''']])
     = length (rows \<lparr>fieldnames = [''img'', ''audio_path'', ''dominant'', ''secondary''],
      rows = [mk_row ''A'' ''/d/s1/x/a.wav'' ''wolf'' ''wolves'',
              mk_row ''B'' ''/d/s1/x/b.wav'' ''cat'' ''kitten'']\<rparr>)"
    by blast
  with run show ?thesis by (rule conjI)
qed
end
